theory Spec2Isabelle
  imports Main "HOL-Library.AList"
begin

section \<open>Package config: profiles and their validation\<close>

text \<open>
  The Go struct \<^verbatim>\<open>config.Profile\<close>. The two \<^verbatim>\<open>int\<close> fields are modelled as
  mathematical integers: the code only compares them with constants and prints them.
\<close>

record Profile =
  Name :: string
  ListenAddr :: string
  MaxConns :: int
  ProxyUser :: string
  ProxyPassword :: string
  RDSHost :: string
  RDSPort :: int
  RDSRegion :: string
  RDSDBUser :: string
  AWSProfile :: string
  DefaultDB :: string
  CABundle :: string

definition maxConnsHardLimit :: int where
  "maxConnsHardLimit = 200"

definition MaxConnsHardLimit :: int where
  "MaxConnsHardLimit = maxConnsHardLimit"

text \<open>
  Every \<^verbatim>\<open>errors.New\<close> / \<^verbatim>\<open>fmt.Errorf\<close> of \<^verbatim>\<open>validateProfile\<close> and
  \<^verbatim>\<open>ValidateRuntime\<close> is one constructor; a wrapped library error keeps its message.
\<close>

datatype config_error =
    NameRequired
  | ProxyUserRequired
  | MaxConnsTooSmall
  | MaxConnsTooLarge int
  | RDSHostRequired
  | RDSRegionRequired
  | RDSDBUserRequired
  | ProxyUserEqualsDBUser
  | CABundleRequired
  | InvalidListenAddr string
  | ProxyPasswordEmpty
  | ProxyPasswordExample
  | NotLoopback string
  | CABundleNotReadable string

text \<open>
  The standard-library functions the package calls are parameters of the model:
  \<^verbatim>\<open>net.SplitHostPort\<close> (an error message, or host and port), \<^verbatim>\<open>net.ParseIP\<close>
  (\<^verbatim>\<open>nil\<close> is \<open>None\<close>), \<^verbatim>\<open>IP.IsLoopback\<close> and \<^verbatim>\<open>os.Stat\<close> (its error, if any).
\<close>

record 'ip stdlib =
  SplitHostPort :: "string \<Rightarrow> string + string \<times> string"
  ParseIP :: "string \<Rightarrow> 'ip option"
  IsLoopback :: "'ip \<Rightarrow> bool"
  Stat :: "string \<Rightarrow> string option"

definition validateProfile :: "'ip stdlib \<Rightarrow> Profile \<Rightarrow> config_error option" where
  "validateProfile lib p =
     (if Name p = [] then Some NameRequired
      else if ProxyUser p = [] then Some ProxyUserRequired
      else if MaxConns p < 1 then Some MaxConnsTooSmall
      else if MaxConns p > maxConnsHardLimit then Some (MaxConnsTooLarge maxConnsHardLimit)
      else if RDSHost p = [] then Some RDSHostRequired
      else if RDSRegion p = [] then Some RDSRegionRequired
      else if RDSDBUser p = [] then Some RDSDBUserRequired
      else if ProxyUser p = RDSDBUser p then Some ProxyUserEqualsDBUser
      else if CABundle p = [] then Some CABundleRequired
      else (case SplitHostPort lib (ListenAddr p) of
              Inl e \<Rightarrow> Some (InvalidListenAddr e)
            | Inr _ \<Rightarrow> None))"

definition isLoopbackAddr :: "'ip stdlib \<Rightarrow> string \<Rightarrow> bool" where
  "isLoopbackAddr lib addr =
     (case SplitHostPort lib addr of
        Inl _ \<Rightarrow> False
      | Inr (host, _) \<Rightarrow>
          (case ParseIP lib host of
             None \<Rightarrow> False
           | Some ip \<Rightarrow> IsLoopback lib ip))"

definition ValidateRuntime :: "'ip stdlib \<Rightarrow> Profile \<Rightarrow> bool \<Rightarrow> config_error option" where
  "ValidateRuntime lib p allowDevEmptyPassword =
     (if ProxyPassword p = [] \<and> \<not> allowDevEmptyPassword then Some ProxyPasswordEmpty
      else if ProxyPassword p = ''change-me'' \<or> ProxyPassword p = ''change-me-too''
        then Some ProxyPasswordExample
      else if \<not> isLoopbackAddr lib (ListenAddr p) then Some (NotLoopback (ListenAddr p))
      else (case Stat lib (CABundle p) of
              Some e \<Rightarrow> Some (CABundleNotReadable e)
            | None \<Rightarrow> None))"

text \<open>What the claims call "the host parses as an IP loopback address".\<close>

definition host_is_loopback_ip :: "'ip stdlib \<Rightarrow> string \<Rightarrow> bool" where
  "host_is_loopback_ip lib addr =
     (\<exists>host port ip. SplitHostPort lib addr = Inr (host, port)
        \<and> ParseIP lib host = Some ip \<and> IsLoopback lib ip)"

text \<open>A small instance of the library, enough to run the tests' two listen addresses.\<close>

definition test_lib :: "nat stdlib" where
  "test_lib = \<lparr>
     SplitHostPort = (\<lambda>a. if a = ''127.0.0.1:3307'' then Inr (''127.0.0.1'', ''3307'')
                          else if a = ''0.0.0.0:3307'' then Inr (''0.0.0.0'', ''3307'')
                          else Inl ''missing port in address''),
     ParseIP = (\<lambda>h. if h = ''127.0.0.1'' then Some 127 else if h = ''0.0.0.0'' then Some 0 else None),
     IsLoopback = (\<lambda>ip. ip = 127),
     Stat = (\<lambda>path. if path = ''/tmp/ca.pem'' then None else Some ''no such file or directory'') \<rparr>"

definition test_profile :: Profile where
  "test_profile = \<lparr>
     Name = ''p1'', ListenAddr = ''127.0.0.1:3307'', MaxConns = 20,
     ProxyUser = ''local_proxy_1'', ProxyPassword = ''secret'',
     RDSHost = ''db.example'', RDSPort = 3306, RDSRegion = ''eu-west-1'',
     RDSDBUser = ''db_user_1'', AWSProfile = ''dev'', DefaultDB = [],
     CABundle = ''/tmp/ca.pem'' \<rparr>"

section \<open>Package token: the token cache\<close>

text \<open>
  Instants are integers (nanoseconds on the process clock) and a \<^verbatim>\<open>time.Duration\<close> is an
  integer number of nanoseconds; \<^verbatim>\<open>time.Until t\<close> is \<open>t - now\<close> and \<^verbatim>\<open>now.Add d\<close> is
  \<open>now + d\<close>; the 64-bit range of a \<^verbatim>\<open>Duration\<close>, at whose ends \<^verbatim>\<open>Time.Sub\<close>
  saturates, is not modelled. The credentials provider is an opaque handle of the SDK.
  The calls on one cache are modelled one after the other, each with the state the previous
  one left; calls that overlap are modelled further down, step by step.
\<close>

datatype CredentialsProvider = Provider nat

record CachedToken =
  Value :: string
  ExpiresAt :: int

record Cache =
  entries :: "string \<rightharpoonup> CachedToken"
  awsProviders :: "string \<rightharpoonup> CredentialsProvider"
  refreshBefore :: int
  tokenTTL :: int

definition token_New :: "int \<Rightarrow> int \<Rightarrow> Cache" where
  "token_New rb ttl =
     \<lparr> entries = Map.empty, awsProviders = Map.empty, refreshBefore = rb, tokenTTL = ttl \<rparr>"

text \<open>\<^verbatim>\<open>strconv.Itoa\<close> and \<^verbatim>\<open>net.JoinHostPort\<close> of the standard library.\<close>

definition digit_char :: "nat \<Rightarrow> char" where
  "digit_char d = char_of (48 + d)"

fun nat_digits :: "nat \<Rightarrow> string" where
  "nat_digits n =
     (if n < 10 then [digit_char n] else nat_digits (n div 10) @ [digit_char (n mod 10)])"

declare nat_digits.simps [simp del]

definition Itoa :: "int \<Rightarrow> string" where
  "Itoa i = (if i < 0 then CHR ''-'' # nat_digits (nat (- i)) else nat_digits (nat i))"

definition JoinHostPort :: "string \<Rightarrow> string \<Rightarrow> string" where
  "JoinHostPort host port =
     (if CHR '':'' \<in> set host then ''['' @ host @ '']:'' @ port else host @ '':'' @ port)"

definition cacheKey :: "Profile \<Rightarrow> string" where
  "cacheKey p =
     Name p @ ''|'' @ RDSHost p @ ''|'' @ Itoa (RDSPort p) @ ''|'' @ RDSRegion p @ ''|''
       @ RDSDBUser p @ ''|'' @ AWSProfile p"

definition providerKey :: "Profile \<Rightarrow> string" where
  "providerKey p = RDSRegion p @ ''|'' @ AWSProfile p"

text \<open>
  What one call of \<^verbatim>\<open>Get\<close> reads from outside the cache: the clock at the lookup
  (inside \<^verbatim>\<open>time.Until\<close>), the two injected functions \<^verbatim>\<open>loadDefaultAWSConfig\<close> (called
  with the region and the optional shared-config profile, returning an error message or the
  credentials of the loaded configuration) and \<^verbatim>\<open>buildRDSAuthToken\<close> (endpoint, region,
  database user, provider), and the clock read by \<^verbatim>\<open>build\<close> after the builder returned.
  A stateful fake, as in the tests, is a different function at each call.
\<close>

record GetEnv =
  now_lookup :: int
  loadDefaultAWSConfig :: "string \<Rightarrow> string option \<Rightarrow> string + CredentialsProvider"
  buildRDSAuthToken :: "string \<Rightarrow> string \<Rightarrow> string \<Rightarrow> CredentialsProvider \<Rightarrow> string + string"
  now_build :: int

datatype token_error = LoadAWSConfigError string | BuildAuthTokenError string

text \<open>The calls made to the injected functions are recorded, in order.\<close>

datatype call =
    LoaderCall string "string option"
  | BuilderCall string string string CredentialsProvider

fun is_loader_call :: "call \<Rightarrow> bool" where
  "is_loader_call (LoaderCall _ _) = True"
| "is_loader_call (BuilderCall _ _ _ _) = False"

definition loader_calls :: "call list \<Rightarrow> nat" where
  "loader_calls tr = length (filter is_loader_call tr)"

definition builder_calls :: "call list \<Rightarrow> nat" where
  "builder_calls tr = length (filter (\<lambda>c. \<not> is_loader_call c) tr)"

definition getOrInitProvider ::
  "Cache \<Rightarrow> GetEnv \<Rightarrow> Profile \<Rightarrow> (token_error + CredentialsProvider) \<times> Cache \<times> call list" where
  "getOrInitProvider c env p =
     (let key = providerKey p in
      case awsProviders c key of
        Some provider \<Rightarrow> (Inr provider, c, [])
      | None \<Rightarrow>
          (let shared = (if AWSProfile p \<noteq> [] then Some (AWSProfile p) else None) in
           case loadDefaultAWSConfig env (RDSRegion p) shared of
             Inl e \<Rightarrow> (Inl (LoadAWSConfigError e), c, [LoaderCall (RDSRegion p) shared])
           | Inr creds \<Rightarrow>
               (Inr creds, c\<lparr>awsProviders := (awsProviders c)(key \<mapsto> creds)\<rparr>,
                [LoaderCall (RDSRegion p) shared])))"

definition build ::
  "GetEnv \<Rightarrow> Profile \<Rightarrow> int \<Rightarrow> CredentialsProvider \<Rightarrow> (token_error + CachedToken) \<times> call list" where
  "build env p ttl provider =
     (let endpoint = JoinHostPort (RDSHost p) (Itoa (RDSPort p)) in
      (case buildRDSAuthToken env endpoint (RDSRegion p) (RDSDBUser p) provider of
         Inl e \<Rightarrow> Inl (BuildAuthTokenError e)
       | Inr token \<Rightarrow> Inr \<lparr> Value = token, ExpiresAt = now_build env + ttl \<rparr>,
       [BuilderCall endpoint (RDSRegion p) (RDSDBUser p) provider]))"

definition fresh_entry :: "Cache \<Rightarrow> int \<Rightarrow> string \<Rightarrow> CachedToken option" where
  "fresh_entry c now key =
     (case entries c key of
        Some entry \<Rightarrow> if ExpiresAt entry - now > refreshBefore c then Some entry else None
      | None \<Rightarrow> None)"

definition Get ::
  "Cache \<Rightarrow> GetEnv \<Rightarrow> Profile \<Rightarrow> (token_error + CachedToken) \<times> Cache \<times> call list" where
  "Get c env p =
     (let key = cacheKey p in
      case fresh_entry c (now_lookup env) key of
        Some entry \<Rightarrow> (Inr entry, c, [])
      | None \<Rightarrow>
          (case getOrInitProvider c env p of
             (Inl err, c1, tr1) \<Rightarrow> (Inl err, c1, tr1)
           | (Inr provider, c1, tr1) \<Rightarrow>
               (case build env p (tokenTTL c1) provider of
                  (Inl err, tr2) \<Rightarrow> (Inl err, c1, tr1 @ tr2)
                | (Inr fresh, tr2) \<Rightarrow>
                    (Inr fresh, c1\<lparr>entries := (entries c1)(key \<mapsto> fresh)\<rparr>, tr1 @ tr2))))"

text \<open>
  A sequence of calls on one cache, one after the other; and the condition that the clock
  readings of such a sequence never go back, starting from the instant \<open>t\<close>.
\<close>

fun Gets ::
  "Cache \<Rightarrow> (GetEnv \<times> Profile) list \<Rightarrow> (token_error + CachedToken) list \<times> Cache \<times> call list" where
  "Gets c [] = ([], c, [])"
| "Gets c ((env, p) # rest) =
     (case Get c env p of
        (r, c1, tr1) \<Rightarrow>
          (case Gets c1 rest of (rs, c2, tr2) \<Rightarrow> (r # rs, c2, tr1 @ tr2)))"



definition succeeded :: "(token_error + CachedToken) \<Rightarrow> bool" where
  "succeeded r = (case r of Inl _ \<Rightarrow> False | Inr _ \<Rightarrow> True)"

text \<open>The fakes of the package's tests: a loader that always succeeds, a builder that
  returns the given token.\<close>

definition test_env :: "int \<Rightarrow> string \<Rightarrow> int \<Rightarrow> GetEnv" where
  "test_env t1 tok t2 = \<lparr>
     now_lookup = t1,
     loadDefaultAWSConfig = (\<lambda>region shared. Inr (Provider 0)),
     buildRDSAuthToken = (\<lambda>endpoint region user provider. Inr tok),
     now_build = t2 \<rparr>"



text \<open>Two profiles that differ in their name and host, with \<open>|\<close> inside a field.\<close>

definition collide_p1 :: Profile where
  "collide_p1 = test_profile\<lparr>Name := ''a|b'', RDSHost := ''c''\<rparr>"

definition collide_p2 :: Profile where
  "collide_p2 = test_profile\<lparr>Name := ''a'', RDSHost := ''b|c''\<rparr>"

text \<open>
  Calls of \<^verbatim>\<open>Get\<close> that overlap. \<^verbatim>\<open>Get\<close> and \<^verbatim>\<open>getOrInitProvider\<close> hold the mutex
  only around each access to a map and release it before they call the loader or the
  builder. One call therefore proceeds in steps, each of them one critical section or one
  call outside the lock, and between two steps of a call other calls may take steps on the
  same cache. The places of a call between its steps: before the lookup of the token;
  before the lookup of the provider; before the loader is called; with the loaded
  credentials, before they are stored; with a provider, before the builder is called; with
  the new token, before it is stored; returned.
\<close>

datatype get_pc =
    AtLookup
  | AtProviderLookup
  | AtLoad
  | AtProviderStore CredentialsProvider
  | AtBuild CredentialsProvider
  | AtStore CachedToken
  | Returned "token_error + CachedToken"

definition Get_step :: "GetEnv \<Rightarrow> Profile \<Rightarrow> get_pc \<Rightarrow> Cache \<Rightarrow> get_pc \<times> Cache \<times> call list" where
  "Get_step env p pc c =
     (case pc of
        AtLookup \<Rightarrow>
          (case fresh_entry c (now_lookup env) (cacheKey p) of
             Some entry \<Rightarrow> (Returned (Inr entry), c, [])
           | None \<Rightarrow> (AtProviderLookup, c, []))
      | AtProviderLookup \<Rightarrow>
          (case awsProviders c (providerKey p) of
             Some provider \<Rightarrow> (AtBuild provider, c, [])
           | None \<Rightarrow> (AtLoad, c, []))
      | AtLoad \<Rightarrow>
          (let shared = (if AWSProfile p \<noteq> [] then Some (AWSProfile p) else None) in
           case loadDefaultAWSConfig env (RDSRegion p) shared of
             Inl e \<Rightarrow> (Returned (Inl (LoadAWSConfigError e)), c, [LoaderCall (RDSRegion p) shared])
           | Inr creds \<Rightarrow> (AtProviderStore creds, c, [LoaderCall (RDSRegion p) shared]))
      | AtProviderStore creds \<Rightarrow>
          (AtBuild creds, c\<lparr>awsProviders := (awsProviders c)(providerKey p \<mapsto> creds)\<rparr>, [])
      | AtBuild provider \<Rightarrow>
          (case build env p (tokenTTL c) provider of
             (Inl err, tr) \<Rightarrow> (Returned (Inl err), c, tr)
           | (Inr fresh, tr) \<Rightarrow> (AtStore fresh, c, tr))
      | AtStore fresh \<Rightarrow>
          (Returned (Inr fresh), c\<lparr>entries := (entries c)(cacheKey p \<mapsto> fresh)\<rparr>, [])
      | Returned r \<Rightarrow> (Returned r, c, []))"

text \<open>The steps of one call taken with no other call in between.\<close>

fun Get_steps :: "nat \<Rightarrow> GetEnv \<Rightarrow> Profile \<Rightarrow> get_pc \<Rightarrow> Cache \<Rightarrow> get_pc \<times> Cache \<times> call list" where
  "Get_steps 0 env p pc c = (pc, c, [])"
| "Get_steps (Suc n) env p pc c =
     (case Get_step env p pc c of
        (pc1, c1, tr1) \<Rightarrow>
          (case Get_steps n env p pc1 c1 of (pc2, c2, tr2) \<Rightarrow> (pc2, c2, tr1 @ tr2)))"

text \<open>
  Several calls on one cache, each with its environment, its profile and its place; a
  schedule names, step after step, the call that takes the next step.
\<close>

type_synonym get_call = "GetEnv \<times> Profile \<times> get_pc"

fun interleave :: "nat list \<Rightarrow> get_call list \<Rightarrow> Cache \<Rightarrow> get_call list \<times> Cache \<times> call list" where
  "interleave [] ths c = (ths, c, [])"
| "interleave (i # sched) ths c =
     (if i < length ths
      then (case ths ! i of
              (env, p, pc) \<Rightarrow>
                (case Get_step env p pc c of
                   (pc1, c1, tr1) \<Rightarrow>
                     (case interleave sched (ths[i := (env, p, pc1)]) c1 of
                        (ths2, c2, tr2) \<Rightarrow> (ths2, c2, tr1 @ tr2))))
      else interleave sched ths c)"

text \<open>
  The key under which the provider loaded by a loader call is stored, and the number of
  loader calls for a key.
\<close>

fun loader_key :: "call \<Rightarrow> string option" where
  "loader_key (LoaderCall region shared) =
     Some (region @ ''|'' @ (case shared of None \<Rightarrow> [] | Some awsProfile \<Rightarrow> awsProfile))"
| "loader_key (BuilderCall endpoint region user provider) = None"

definition loader_calls_for :: "string \<Rightarrow> call list \<Rightarrow> nat" where
  "loader_calls_for k tr = length (filter (\<lambda>c. loader_key c = Some k) tr)"

text \<open>Two (region, named credential profile) pairs with the same provider key.\<close>

definition pk_p1 :: Profile where
  "pk_p1 = test_profile\<lparr>RDSRegion := ''a|b'', AWSProfile := ''c''\<rparr>"

definition pk_p2 :: Profile where
  "pk_p2 = test_profile\<lparr>RDSRegion := ''a'', AWSProfile := ''b|c''\<rparr>"

text \<open>An environment whose loader returns the provider with the given number.\<close>

definition provider_env :: "int \<Rightarrow> string \<Rightarrow> int \<Rightarrow> nat \<Rightarrow> GetEnv" where
  "provider_env t1 tok t2 n = \<lparr>
     now_lookup = t1,
     loadDefaultAWSConfig = (\<lambda>region shared. Inr (Provider n)),
     buildRDSAuthToken = (\<lambda>endpoint region user provider. Inr tok),
     now_build = t2 \<rparr>"

section \<open>Package proxy: the backend pool\<close>

text \<open>
  A backend connection (\<^verbatim>\<open>*client.Conn\<close>) is identified by a number. The pool's channel,
  the context and the connections are what \<^verbatim>\<open>Borrow\<close> reads from outside: each turn of
  its loop sees one outcome of the \<^verbatim>\<open>select\<close>, and for a received entry the clock read by
  \<^verbatim>\<open>time.Since\<close> and the result of \<^verbatim>\<open>Ping\<close> (\<open>None\<close> is a \<^verbatim>\<open>nil\<close> error).
\<close>

record PooledConn =
  pc_conn :: nat
  pc_createdAt :: int

datatype select_event =
    CtxDone string
  | ReceivedNil
  | Received PooledConn int "string option"
  | ChannelEmpty

text \<open>What a call does that is visible outside, in order.\<close>

datatype pool_effect =
    LogInfo string nat string
  | LogDebug string string
  | CloseConn nat
  | GoFillOne
  | CallFactory

text \<open>
  \<^verbatim>\<open>compactErr\<close>: the first line of the message, trimmed. \<^verbatim>\<open>strings.TrimSpace\<close>
  removes the leading and the trailing white space of Unicode; a string is its UTF-8 bytes,
  and \<open>space_runes\<close> are the encodings of the code points for which \<^verbatim>\<open>unicode.IsSpace\<close>
  holds: U+0009 to U+000D, U+0020, U+0085, U+00A0, U+1680, U+2000 to U+200A, U+2028, U+2029,
  U+202F, U+205F and U+3000.
\<close>

definition space_runes :: "string list" where
  "space_runes =
     map (\<lambda>b. [b]) [CHR 0x09, CHR 0x0A, CHR 0x0B, CHR 0x0C, CHR 0x0D, CHR 0x20]
     @ map (\<lambda>b. [CHR 0xC2, b]) [CHR 0x85, CHR 0xA0]
     @ map (\<lambda>b. [CHR 0xE1, CHR 0x9A, b]) [CHR 0x80]
     @ map (\<lambda>b. [CHR 0xE2, CHR 0x80, b])
         [CHR 0x80, CHR 0x81, CHR 0x82, CHR 0x83, CHR 0x84, CHR 0x85, CHR 0x86, CHR 0x87,
          CHR 0x88, CHR 0x89, CHR 0x8A, CHR 0xA8, CHR 0xA9, CHR 0xAF]
     @ map (\<lambda>b. [CHR 0xE2, CHR 0x81, b]) [CHR 0x9F]
     @ map (\<lambda>b. [CHR 0xE3, CHR 0x80, b]) [CHR 0x80]"

definition strip_rune :: "string list \<Rightarrow> string \<Rightarrow> string option" where
  "strip_rune runes s =
     (case filter (\<lambda>w. w \<noteq> [] \<and> take (length w) s = w) runes of
        [] \<Rightarrow> None
      | w # _ \<Rightarrow> Some (drop (length w) s))"

lemma strip_rune_shorter: "strip_rune runes s = Some rest \<Longrightarrow> length rest < length s"
proof -
  assume a: "strip_rune runes s = Some rest"
  then obtain w ws where f: "filter (\<lambda>w. w \<noteq> [] \<and> take (length w) s = w) runes = w # ws"
    and rest: "rest = drop (length w) s"
    by (auto simp: strip_rune_def split: list.splits)
  from f have "w \<in> set (filter (\<lambda>w. w \<noteq> [] \<and> take (length w) s = w) runes)" by simp
  then have w: "w \<noteq> []" "take (length w) s = w" by simp_all
  then have "s \<noteq> []" by auto
  with w rest show ?thesis by simp
qed

function trim_runes :: "string list \<Rightarrow> string \<Rightarrow> string" where
  "trim_runes runes s =
     (case strip_rune runes s of
        None \<Rightarrow> s
      | Some rest \<Rightarrow> trim_runes runes rest)"
  by pat_completeness auto
termination
  by (relation "measure (\<lambda>(runes, s). length s)") (auto simp: strip_rune_shorter)

declare trim_runes.simps [simp del]

definition TrimSpace :: "string \<Rightarrow> string" where
  "TrimSpace s = rev (trim_runes (map rev space_runes) (rev (trim_runes space_runes s)))"

definition compactErr :: "string option \<Rightarrow> string" where
  "compactErr err =
     (case err of
        None \<Rightarrow> []
      | Some msg \<Rightarrow> TrimSpace (takeWhile (\<lambda>ch. ch \<noteq> CHR 0x0A) msg))"

definition summary :: "nat \<Rightarrow> string \<Rightarrow> pool_effect list" where
  "summary staleDiscarded lastStaleReason =
     (if staleDiscarded > 0
      then [LogInfo ''refreshed stale pooled connections'' staleDiscarded lastStaleReason]
      else [])"

definition continue_with ::
  "pool_effect list \<Rightarrow> ('r \<times> pool_effect list) option \<Rightarrow> ('r \<times> pool_effect list) option" where
  "continue_with effs rest = map_option (\<lambda>(r, effs'). (r, effs @ effs')) rest"

text \<open>
  The loop of \<^verbatim>\<open>Borrow\<close>, with its two local variables. The result is the error or the
  connection returned, with the effects; the factory's result is a parameter. The loop goes
  on for as long as it receives entries it discards: \<open>None\<close> means that the outcomes given
  were all consumed without the call returning.
\<close>

fun Borrow_loop ::
  "int \<Rightarrow> (string + nat) \<Rightarrow> nat \<Rightarrow> string \<Rightarrow> select_event list
     \<Rightarrow> ((string + nat) \<times> pool_effect list) option" where
  "Borrow_loop maxLife factory staleDiscarded lastStaleReason [] = None"
| "Borrow_loop maxLife factory staleDiscarded lastStaleReason (CtxDone ctxErr # evs) =
     Some (Inl ctxErr, summary staleDiscarded lastStaleReason)"
| "Borrow_loop maxLife factory staleDiscarded lastStaleReason (ReceivedNil # evs) =
     Some (factory, summary staleDiscarded lastStaleReason @ [CallFactory])"
| "Borrow_loop maxLife factory staleDiscarded lastStaleReason (Received pooled now ping # evs) =
     (if now - pc_createdAt pooled > maxLife
      then continue_with [CloseConn (pc_conn pooled), GoFillOne]
             (Borrow_loop maxLife factory staleDiscarded lastStaleReason evs)
      else if ping \<noteq> None
      then (let reason = compactErr ping in
            continue_with
              [LogDebug ''discarding stale pooled connection'' reason,
               CloseConn (pc_conn pooled), GoFillOne]
              (Borrow_loop maxLife factory (staleDiscarded + 1) reason evs))
      else Some (Inr (pc_conn pooled), GoFillOne # summary staleDiscarded lastStaleReason))"
| "Borrow_loop maxLife factory staleDiscarded lastStaleReason (ChannelEmpty # evs) =
     Some (factory, summary staleDiscarded lastStaleReason @ [CallFactory])"

definition Borrow ::
  "int \<Rightarrow> (string + nat) \<Rightarrow> select_event list \<Rightarrow> ((string + nat) \<times> pool_effect list) option" where
  "Borrow maxLife factory evs = Borrow_loop maxLife factory 0 [] evs"

text \<open>
  The sessions that a call discards, read from the outcomes it is given, up to the one at
  which it returns, in order: a session older than the maximum age, marked \<open>None\<close>, or a
  session within the maximum age whose \<^verbatim>\<open>Ping\<close> returned an error, marked with that
  error. These are the stale sessions discarded during the call; \<open>ping_failed\<close> are those
  failing the liveness check and \<open>aged_out\<close> those older than the maximum age.
\<close>

fun discarded_sessions :: "int \<Rightarrow> select_event list \<Rightarrow> (PooledConn \<times> string option) list" where
  "discarded_sessions maxLife (Received pooled now ping # evs) =
     (if now - pc_createdAt pooled > maxLife then (pooled, None) # discarded_sessions maxLife evs
      else if ping \<noteq> None then (pooled, ping) # discarded_sessions maxLife evs
      else [])"
| "discarded_sessions maxLife evs = []"

definition ping_failed :: "int \<Rightarrow> select_event list \<Rightarrow> (PooledConn \<times> string option) list" where
  "ping_failed maxLife evs = filter (\<lambda>d. snd d \<noteq> None) (discarded_sessions maxLife evs)"

definition aged_out :: "int \<Rightarrow> select_event list \<Rightarrow> (PooledConn \<times> string option) list" where
  "aged_out maxLife evs = filter (\<lambda>d. snd d = None) (discarded_sessions maxLife evs)"

text \<open>
  In the effects of a call: the number of summary lines, and the connections closed, in
  order.
\<close>

fun is_summary :: "pool_effect \<Rightarrow> bool" where
  "is_summary (LogInfo msg n reason) = (msg = ''refreshed stale pooled connections'')"
| "is_summary _ = False"

definition summary_lines :: "pool_effect list \<Rightarrow> nat" where
  "summary_lines effs = length (filter is_summary effs)"

fun closed_conns :: "pool_effect list \<Rightarrow> nat list" where
  "closed_conns [] = []"
| "closed_conns (CloseConn c # effs) = c # closed_conns effs"
| "closed_conns (e # effs) = closed_conns effs"

section \<open>Package proxy: errors, the pipe and the tracked sessions\<close>

text \<open>\<^verbatim>\<open>strings.HasPrefix\<close> and \<^verbatim>\<open>strings.Contains\<close>.\<close>

fun HasPrefix :: "string \<Rightarrow> string \<Rightarrow> bool" where
  "HasPrefix s [] = True"
| "HasPrefix [] (p # ps) = False"
| "HasPrefix (x # xs) (p # ps) = (x = p \<and> HasPrefix xs ps)"

fun Contains :: "string \<Rightarrow> string \<Rightarrow> bool" where
  "Contains [] substr = (substr = [])"
| "Contains (x # xs) substr = (HasPrefix (x # xs) substr \<or> Contains xs substr)"

text \<open>
  Go errors: the two sentinels \<^verbatim>\<open>io.EOF\<close> and \<^verbatim>\<open>net.ErrClosed\<close>, an error that is only
  a message (\<^verbatim>\<open>errors.New\<close>), and an error that wraps another one, its message being the
  wrapped message with text before and after it (\<^verbatim>\<open>fmt.Errorf\<close> with \<^verbatim>\<open>%w\<close>,
  \<^verbatim>\<open>*net.OpError\<close>). \<^verbatim>\<open>errors.Is\<close> follows the chain of wrapped errors; the code calls it
  with the two sentinels as targets. A \<^verbatim>\<open>nil\<close> error is \<open>None\<close>.
\<close>

datatype go_error =
    EOF
  | ErrClosed
  | ErrorString string
  | Wrapped string go_error string

fun Error :: "go_error \<Rightarrow> string" where
  "Error EOF = ''EOF''"
| "Error ErrClosed = ''use of closed network connection''"
| "Error (ErrorString msg) = msg"
| "Error (Wrapped before e after) = before @ Error e @ after"

fun errors_Is :: "go_error \<Rightarrow> go_error \<Rightarrow> bool" where
  "errors_Is (Wrapped before e after) target =
     (Wrapped before e after = target \<or> errors_Is e target)"
| "errors_Is e target = (e = target)"

definition isUseOfClosedConn :: "go_error option \<Rightarrow> bool" where
  "isUseOfClosedConn err =
     (case err of
        None \<Rightarrow> False
      | Some e \<Rightarrow> Contains (Error e) ''use of closed network connection'')"

definition isConnCloseErr :: "go_error option \<Rightarrow> bool" where
  "isConnCloseErr err =
     (case err of
        None \<Rightarrow> False
      | Some e \<Rightarrow>
          if errors_Is e ErrClosed \<or> errors_Is e EOF then True
          else Contains (Error e) ''connection reset by peer''
             \<or> Contains (Error e) ''broken pipe''
             \<or> Contains (Error e) ''read/write on closed pipe''
             \<or> isUseOfClosedConn err)"

text \<open>
  \<^verbatim>\<open>pipe\<close>. Each of the two copy goroutines sends its \<^verbatim>\<open>copyResult\<close> on the channel
  when it ends. Which one ends first is decided by the connections and the scheduler and is an
  input here, with the result of the client-to-backend copy and the result of the
  backend-to-client copy. The function returns \<^verbatim>\<open>up\<close>, \<^verbatim>\<open>down\<close> and the error.
\<close>

record copyResult =
  cr_n :: int
  cr_err :: "go_error option"

datatype direction = ClientToBackend | BackendToClient

definition pipe :: "direction \<Rightarrow> copyResult \<Rightarrow> copyResult \<Rightarrow> int \<times> int \<times> go_error option" where
  "pipe first_done client_to_backend backend_to_client =
     (let first = (case first_done of
                     ClientToBackend \<Rightarrow> client_to_backend
                   | BackendToClient \<Rightarrow> backend_to_client);
          second = (case first_done of
                      ClientToBackend \<Rightarrow> backend_to_client
                    | BackendToClient \<Rightarrow> client_to_backend);
          up = cr_n first;
          down = cr_n second
      in if cr_err first \<noteq> None \<and> \<not> isConnCloseErr (cr_err first) then (up, down, cr_err first)
         else if cr_err second \<noteq> None \<and> \<not> isConnCloseErr (cr_err second)
           then (up, down, cr_err second)
         else (up, down, None))"

text \<open>
  The tracked sessions. A socket (\<^verbatim>\<open>net.Conn\<close>) is identified by a number, a \<^verbatim>\<open>nil\<close>
  interface is \<open>None\<close>. The map \<^verbatim>\<open>p.active\<close> is an association list with one entry per
  connection id; the order of the list stands for the order in which a \<^verbatim>\<open>range\<close> over the
  map visits the entries, which Go leaves open.
\<close>

record trackedConn =
  tc_client :: "nat option"
  tc_backend :: "nat option"
  tc_startedAt :: int

type_synonym active_map = "(nat \<times> trackedConn) list"

definition trackClient :: "nat \<Rightarrow> nat option \<Rightarrow> int \<Rightarrow> active_map \<Rightarrow> active_map" where
  "trackClient connID client startedAt active =
     AList.update connID \<lparr>tc_client = client, tc_backend = None, tc_startedAt = startedAt\<rparr> active"

definition trackBackend :: "nat \<Rightarrow> nat option \<Rightarrow> active_map \<Rightarrow> active_map" where
  "trackBackend connID backend active =
     AList.map_entry connID (\<lambda>tc. tc\<lparr>tc_backend := backend\<rparr>) active"

definition untrack :: "nat \<Rightarrow> active_map \<Rightarrow> active_map" where
  "untrack connID active = AList.delete connID active"

definition activeSummary :: "int \<Rightarrow> active_map \<Rightarrow> nat \<times> int" where
  "activeSummary now active =
     (length active,
      fold (\<lambda>(connID, tc) oldestAge.
              (let age = now - tc_startedAt tc in if age > oldestAge then age else oldestAge))
           active 0)"

text \<open>\<^verbatim>\<open>forceCloseActive\<close> returns its count; the sockets it closes are listed with it.\<close>

definition close_pair :: "nat option \<times> nat option \<Rightarrow> nat \<times> nat list \<Rightarrow> nat \<times> nat list" where
  "close_pair item acc =
     (let acc1 = (case fst item of
                    Some s \<Rightarrow> (fst acc + 1, snd acc @ [s])
                  | None \<Rightarrow> acc)
      in (case snd item of
            Some s \<Rightarrow> (fst acc1 + 1, snd acc1 @ [s])
          | None \<Rightarrow> acc1))"

definition forceCloseActive :: "active_map \<Rightarrow> nat \<times> nat list" where
  "forceCloseActive active =
     (let pairs = map (\<lambda>(connID, tc). (tc_client tc, tc_backend tc)) active
      in fold close_pair pairs (0, []))"

text \<open>The ages of the tracked sessions, and the sessions with and without a backend.\<close>

definition ages :: "int \<Rightarrow> active_map \<Rightarrow> int list" where
  "ages now active = map (\<lambda>(connID, tc). now - tc_startedAt tc) active"

definition with_backend :: "active_map \<Rightarrow> nat" where
  "with_backend active = length (filter (\<lambda>(connID, tc). tc_backend tc \<noteq> None) active)"

definition without_backend :: "active_map \<Rightarrow> nat" where
  "without_backend active = length (filter (\<lambda>(connID, tc). tc_backend tc = None) active)"

definition with_client :: "active_map \<Rightarrow> nat" where
  "with_client active = length (filter (\<lambda>(connID, tc). tc_client tc \<noteq> None) active)"

section \<open>Package proxy: the accept loop and the connection semaphore\<close>

text \<open>
  The part of \<^verbatim>\<open>Proxy\<close> that \<^verbatim>\<open>Run\<close> and its workers share for the concurrency cap:
  the capacity \<^verbatim>\<open>maxConns\<close> of the buffered channel \<^verbatim>\<open>sem\<close>, the number of elements the
  channel holds, and the connection-id counter. The accept loop is at one of four places:
  in \<^verbatim>\<open>Accept\<close>; in the \<^verbatim>\<open>select\<close>, with an accepted connection, waiting to send on
  \<^verbatim>\<open>sem\<close>; after the send, before the worker is started; or left. \<open>workers\<close> are the ids
  of the worker goroutines started and not yet ended. \<open>acquired\<close> and \<open>released\<close> count,
  for each connection id, the sends made for it and the receives made by its worker's
  deferred function; they are not in the code and only serve to state the claim. Ids are
  natural numbers: the wrap-around of the 64-bit counter is not modelled.
\<close>

datatype accept_pc = Accepting | Waiting | Holding | Stopped

record Proxy =
  maxConns :: nat
  sem :: nat
  nextConnID :: nat
  pc :: accept_pc
  workers :: "nat set"
  acquired :: "nat \<Rightarrow> nat"
  released :: "nat \<Rightarrow> nat"

definition proxy_New :: "int \<Rightarrow> Proxy" where
  "proxy_New maxConnsArg =
     \<lparr> maxConns = (if maxConnsArg \<le> 0 then 200 else nat maxConnsArg),
       sem = 0, nextConnID = 0, pc = Accepting, workers = {},
       acquired = (\<lambda>connID. 0), released = (\<lambda>connID. 0) \<rparr>"

text \<open>
  One step of the accept loop or of a worker, goroutines interleaved. A send on the channel
  is possible only while it holds fewer than \<^verbatim>\<open>maxConns\<close> elements and a receive only
  while it holds one; otherwise the goroutine blocks. The slot sent for is that of the
  connection about to get the next id. A worker ends by returning or by a panic in
  \<^verbatim>\<open>handleConn\<close>, and its deferred function receives from the channel in both cases.
\<close>

inductive step :: "Proxy \<Rightarrow> Proxy \<Rightarrow> bool" where
  accept_ok: "pc s = Accepting \<Longrightarrow> step s (s\<lparr>pc := Waiting\<rparr>)"
| accept_closed: "pc s = Accepting \<Longrightarrow> step s (s\<lparr>pc := Stopped\<rparr>)"
| accept_failed: "pc s = Accepting \<Longrightarrow> step s s"
| acquire: "pc s = Waiting \<Longrightarrow> sem s < maxConns s \<Longrightarrow>
     step s (s\<lparr>sem := sem s + 1, pc := Holding,
               acquired := (acquired s)(nextConnID s + 1 := acquired s (nextConnID s + 1) + 1)\<rparr>)"
| cancelled: "pc s = Waiting \<Longrightarrow> step s (s\<lparr>pc := Stopped\<rparr>)"
| dispatch: "pc s = Holding \<Longrightarrow>
     step s (s\<lparr>nextConnID := nextConnID s + 1,
               workers := insert (nextConnID s + 1) (workers s), pc := Accepting\<rparr>)"
| worker_return: "connID \<in> workers s \<Longrightarrow> 0 < sem s \<Longrightarrow>
     step s (s\<lparr>sem := sem s - 1, workers := workers s - {connID},
               released := (released s)(connID := released s connID + 1)\<rparr>)"
| worker_panic: "connID \<in> workers s \<Longrightarrow> 0 < sem s \<Longrightarrow>
     step s (s\<lparr>sem := sem s - 1, workers := workers s - {connID},
               released := (released s)(connID := released s connID + 1)\<rparr>)"

definition proxy_inv :: "Proxy \<Rightarrow> bool" where
  "proxy_inv s \<longleftrightarrow>
     finite (workers s) \<and>
     sem s = card (workers s) + (if pc s = Holding then 1 else 0) \<and>
     sem s \<le> maxConns s \<and>
     (\<forall>connID \<in> workers s. 1 \<le> connID \<and> connID \<le> nextConnID s) \<and>
     (\<forall>connID. acquired s connID =
        (if (1 \<le> connID \<and> connID \<le> nextConnID s) \<or> (pc s = Holding \<and> connID = nextConnID s + 1)
         then 1 else 0)) \<and>
     (\<forall>connID. released s connID =
        (if 1 \<le> connID \<and> connID \<le> nextConnID s \<and> connID \<notin> workers s then 1 else 0))"

section \<open>Theorems about package config\<close>

lemma isLoopbackAddr_iff: "isLoopbackAddr lib addr \<longleftrightarrow> host_is_loopback_ip lib addr"
  by (auto simp: isLoopbackAddr_def host_is_loopback_ip_def split: sum.splits option.splits)

text \<open>
  Claim C8. \<^verbatim>\<open>validateProfile\<close> returns an error whenever \<open>max_conns\<close> is above the hard
  cap of 200 and whenever it is below 1; when \<open>max_conns\<close> lies in \<open>[1, 200]\<close> neither of the
  two \<open>max_conns\<close> errors is returned.
\<close>

theorem validateProfile_max_conns_bounds:
  "(MaxConns p > 200 \<longrightarrow> validateProfile lib p \<noteq> None) \<and>
   (MaxConns p < 1 \<longrightarrow> validateProfile lib p \<noteq> None) \<and>
   (1 \<le> MaxConns p \<and> MaxConns p \<le> 200 \<longrightarrow>
      validateProfile lib p \<noteq> Some MaxConnsTooSmall \<and>
      (\<forall>n. validateProfile lib p \<noteq> Some (MaxConnsTooLarge n)))"
  by (auto simp: validateProfile_def maxConnsHardLimit_def split: sum.splits)

theorem validateProfile_max_conns_bounds_witness:
  "validateProfile test_lib (test_profile\<lparr>MaxConns := 201\<rparr>) \<noteq> None \<and>
   validateProfile test_lib (test_profile\<lparr>MaxConns := 0\<rparr>) \<noteq> None \<and>
   validateProfile test_lib (test_profile\<lparr>MaxConns := 200\<rparr>) \<noteq> Some MaxConnsTooSmall \<and>
   validateProfile test_lib (test_profile\<lparr>MaxConns := 200\<rparr>) = None"
proof -
  have a: "validateProfile test_lib (test_profile\<lparr>MaxConns := 201\<rparr>) \<noteq> None"
    using validateProfile_max_conns_bounds [of "test_profile\<lparr>MaxConns := 201\<rparr>" test_lib]
    by simp
  have b: "validateProfile test_lib (test_profile\<lparr>MaxConns := 0\<rparr>) \<noteq> None"
    using validateProfile_max_conns_bounds [of "test_profile\<lparr>MaxConns := 0\<rparr>" test_lib]
    by simp
  have c: "validateProfile test_lib (test_profile\<lparr>MaxConns := 200\<rparr>) = None"
    by (simp add: validateProfile_def maxConnsHardLimit_def test_profile_def test_lib_def)
  have d: "validateProfile test_lib (test_profile\<lparr>MaxConns := 200\<rparr>) \<noteq> Some MaxConnsTooSmall"
    using validateProfile_max_conns_bounds [of "test_profile\<lparr>MaxConns := 200\<rparr>" test_lib]
    by simp
  from a b c d show ?thesis by simp
qed

text \<open>
  Claim C9. When the host of the listen address does not parse as an IP loopback address,
  \<^verbatim>\<open>ValidateRuntime\<close> returns an error; and whenever \<^verbatim>\<open>ValidateRuntime\<close> returns no
  error, or any error of a check that comes after the loopback check, the host is an IP
  literal for which \<^verbatim>\<open>IsLoopback\<close> holds.
\<close>

theorem ValidateRuntime_loopback:
  "(\<not> host_is_loopback_ip lib (ListenAddr p) \<longrightarrow> ValidateRuntime lib p allow \<noteq> None) \<and>
   (ValidateRuntime lib p allow = None \<longrightarrow> host_is_loopback_ip lib (ListenAddr p)) \<and>
   (ValidateRuntime lib p allow = Some (CABundleNotReadable e) \<longrightarrow>
      host_is_loopback_ip lib (ListenAddr p)) \<and>
   (ValidateRuntime lib p allow = Some (NotLoopback a) \<longrightarrow>
      \<not> host_is_loopback_ip lib (ListenAddr p))"
  by (auto simp: ValidateRuntime_def isLoopbackAddr_iff split: option.splits if_splits)

theorem ValidateRuntime_loopback_witness:
  "ValidateRuntime test_lib (test_profile\<lparr>ListenAddr := ''0.0.0.0:3307''\<rparr>) False
     = Some (NotLoopback ''0.0.0.0:3307'') \<and>
   \<not> host_is_loopback_ip test_lib ''0.0.0.0:3307'' \<and>
   ValidateRuntime test_lib test_profile False = None \<and>
   host_is_loopback_ip test_lib ''127.0.0.1:3307''"
proof -
  have v1: "ValidateRuntime test_lib (test_profile\<lparr>ListenAddr := ''0.0.0.0:3307''\<rparr>) False
              = Some (NotLoopback ''0.0.0.0:3307'')"
    by (simp add: ValidateRuntime_def isLoopbackAddr_def test_profile_def test_lib_def)
  have v2: "ValidateRuntime test_lib test_profile False = None"
    by (simp add: ValidateRuntime_def isLoopbackAddr_def test_profile_def test_lib_def)
  have l1: "\<not> host_is_loopback_ip test_lib ''0.0.0.0:3307''"
    using ValidateRuntime_loopback
      [of test_lib "test_profile\<lparr>ListenAddr := ''0.0.0.0:3307''\<rparr>" False _ "''0.0.0.0:3307''"] v1
    by simp
  have l2: "host_is_loopback_ip test_lib ''127.0.0.1:3307''"
    using ValidateRuntime_loopback [of test_lib test_profile False] v2
    by (simp add: test_profile_def)
  from v1 v2 l1 l2 show ?thesis by simp
qed

section \<open>Theorems about package token\<close>

lemma fresh_entry_Some_iff:
  "fresh_entry c now key = Some e \<longleftrightarrow>
     entries c key = Some e \<and> ExpiresAt e - now > refreshBefore c"
  by (auto simp: fresh_entry_def split: option.splits)


lemma builder_calls_simps [simp]:
  "builder_calls [] = 0"
  "builder_calls (LoaderCall r s # tr) = builder_calls tr"
  "builder_calls (BuilderCall e r u v # tr) = Suc (builder_calls tr)"
  "builder_calls (tr @ tr') = builder_calls tr + builder_calls tr'"
  by (simp_all add: builder_calls_def)

lemma loader_calls_simps [simp]:
  "loader_calls [] = 0"
  "loader_calls (LoaderCall r s # tr) = Suc (loader_calls tr)"
  "loader_calls (BuilderCall e r u v # tr) = loader_calls tr"
  "loader_calls (tr @ tr') = loader_calls tr + loader_calls tr'"
  by (simp_all add: loader_calls_def)

lemma getOrInitProvider_result:
  assumes "getOrInitProvider c env p = (r, c1, tr)"
  shows "entries c1 = entries c \<and> refreshBefore c1 = refreshBefore c \<and> tokenTTL c1 = tokenTTL c
         \<and> builder_calls tr = 0
         \<and> loader_calls tr = (if awsProviders c (providerKey p) = None then 1 else 0)
         \<and> (\<forall>prov. r = Inr prov \<longrightarrow> awsProviders c1 (providerKey p) = Some prov)
         \<and> (\<forall>k prov. awsProviders c k = Some prov \<longrightarrow> awsProviders c1 k = Some prov)"
  using assms
  by (auto simp: getOrInitProvider_def Let_def split: option.splits sum.splits)

lemma build_result:
  assumes "build env p ttl prov = (r, tr)"
  shows "builder_calls tr = 1 \<and> loader_calls tr = 0
         \<and> (\<forall>tok. r = Inr tok \<longrightarrow> ExpiresAt tok = now_build env + ttl
               \<and> buildRDSAuthToken env (JoinHostPort (RDSHost p) (Itoa (RDSPort p)))
                    (RDSRegion p) (RDSDBUser p) prov = Inr (Value tok))"
  using assms
  by (auto simp: build_def Let_def split: sum.splits)

lemma Get_hit:
  assumes "fresh_entry c (now_lookup env) (cacheKey p) = Some e"
  shows "Get c env p = (Inr e, c, [])"
  using assms by (simp add: Get_def)

lemma Get_miss:
  assumes miss: "fresh_entry c (now_lookup env) (cacheKey p) = None"
    and get: "Get c env p = (r, c', tr)"
  shows "refreshBefore c' = refreshBefore c \<and> tokenTTL c' = tokenTTL c
         \<and> loader_calls tr = (if awsProviders c (providerKey p) = None then 1 else 0)
         \<and> (\<forall>k prov. awsProviders c k = Some prov \<longrightarrow> awsProviders c' k = Some prov)
         \<and> (\<forall>err. r = Inl err \<longrightarrow> entries c' = entries c \<and> builder_calls tr \<le> 1)
         \<and> (\<forall>tok. r = Inr tok \<longrightarrow>
               builder_calls tr = 1
               \<and> ExpiresAt tok = now_build env + tokenTTL c
               \<and> entries c' = (entries c)(cacheKey p \<mapsto> tok)
               \<and> awsProviders c' (providerKey p) \<noteq> None
               \<and> (\<exists>prov. buildRDSAuthToken env (JoinHostPort (RDSHost p) (Itoa (RDSPort p)))
                      (RDSRegion p) (RDSDBUser p) prov = Inr (Value tok)))"
proof -
  obtain r1 c1 tr1 where g: "getOrInitProvider c env p = (r1, c1, tr1)"
    by (cases "getOrInitProvider c env p") auto
  note g' = getOrInitProvider_result [OF g]
  show ?thesis
  proof (cases r1)
    case (Inl err)
    with miss get g have "r = Inl err" "c' = c1" "tr = tr1"
      by (simp_all add: Get_def)
    with g' show ?thesis by simp
  next
    case (Inr prov)
    obtain r2 tr2 where b: "build env p (tokenTTL c1) prov = (r2, tr2)"
      by (cases "build env p (tokenTTL c1) prov") auto
    note b' = build_result [OF b]
    show ?thesis
    proof (cases r2)
      case (Inl err)
      with miss get g b Inr have "r = Inl err" "c' = c1" "tr = tr1 @ tr2"
        by (simp_all add: Get_def)
      with g' b' show ?thesis by simp
    next
      case tok: (Inr tok)
      with miss get g b Inr have
        "r = Inr tok" "c' = c1\<lparr>entries := (entries c1)(cacheKey p \<mapsto> tok)\<rparr>" "tr = tr1 @ tr2"
        by (simp_all add: Get_def)
      with g' b' tok Inr show ?thesis by auto
    qed
  qed
qed

lemma Get_config:
  assumes "Get c env p = (r, c', tr)"
  shows "refreshBefore c' = refreshBefore c \<and> tokenTTL c' = tokenTTL c"
proof (cases "fresh_entry c (now_lookup env) (cacheKey p)")
  case None
  from Get_miss [OF None assms] show ?thesis by simp
next
  case (Some e)
  from Get_hit [OF Some] assms show ?thesis by simp
qed

lemma Get_success_stored:
  assumes "Get c env p = (Inr tok, c', tr)"
  shows "entries c' (cacheKey p) = Some tok"
proof (cases "fresh_entry c (now_lookup env) (cacheKey p)")
  case None
  from Get_miss [OF None assms] show ?thesis by simp
next
  case (Some e)
  from Get_hit [OF Some] assms have "e = tok" "c' = c" by simp_all
  with Some show ?thesis by (simp add: fresh_entry_Some_iff)
qed






lemmas token_eval =
  token_New_def test_env_def Get_def fresh_entry_def getOrInitProvider_def build_def Let_def



text \<open>
  Claim C10. \<^verbatim>\<open>cacheKey\<close> joins the fields with an unescaped \<open>|\<close> and is not injective:
  the profiles with name \<open>a|b\<close>, host \<open>c\<close> and with name \<open>a\<close>, host \<open>b|c\<close> are different and
  have the same key. For any two profiles with equal keys, after a successful \<^verbatim>\<open>Get\<close>
  for the first, a \<^verbatim>\<open>Get\<close> for the second whose lookup finds that token still fresh
  returns the token of the first, changes nothing and calls neither loader nor builder.
\<close>

theorem cacheKey_collision:
  "collide_p1 \<noteq> collide_p2 \<and> cacheKey collide_p1 = cacheKey collide_p2 \<and>
   \<not> inj cacheKey \<and>
   (cacheKey p1 = cacheKey p2 \<and> Get c env1 p1 = (Inr tok, c1, tr1)
      \<and> ExpiresAt tok - now_lookup env2 > refreshBefore c
      \<longrightarrow> Get c1 env2 p2 = (Inr tok, c1, []))"
proof -
  have ne: "collide_p1 \<noteq> collide_p2"
    by (simp add: collide_p1_def collide_p2_def test_profile_def)
  have eq: "cacheKey collide_p1 = cacheKey collide_p2"
    by (simp add: cacheKey_def collide_p1_def collide_p2_def test_profile_def)
  from ne eq have ninj: "\<not> inj cacheKey" by (auto simp: inj_def)
  have hit: "cacheKey p1 = cacheKey p2 \<and> Get c env1 p1 = (Inr tok, c1, tr1)
      \<and> ExpiresAt tok - now_lookup env2 > refreshBefore c
      \<longrightarrow> Get c1 env2 p2 = (Inr tok, c1, [])"
  proof
    assume a: "cacheKey p1 = cacheKey p2 \<and> Get c env1 p1 = (Inr tok, c1, tr1)
      \<and> ExpiresAt tok - now_lookup env2 > refreshBefore c"
    then have g: "Get c env1 p1 = (Inr tok, c1, tr1)" by simp
    from Get_success_stored [OF g] Get_config [OF g] a
    have "fresh_entry c1 (now_lookup env2) (cacheKey p2) = Some tok"
      by (simp add: fresh_entry_Some_iff)
    then show "Get c1 env2 p2 = (Inr tok, c1, [])" by (rule Get_hit)
  qed
  show ?thesis by (rule conjI [OF ne conjI [OF eq conjI [OF ninj hit]]])
qed

theorem cacheKey_collision_witness:
  "fst (Get (token_New 5 15) (test_env 0 ''token-for-c'' 0) collide_p1)
     = Inr \<lparr>Value = ''token-for-c'', ExpiresAt = 15\<rparr> \<and>
   Get (fst (snd (Get (token_New 5 15) (test_env 0 ''token-for-c'' 0) collide_p1)))
       (test_env 1 ''token-for-b|c'' 1) collide_p2
     = (Inr \<lparr>Value = ''token-for-c'', ExpiresAt = 15\<rparr>,
        fst (snd (Get (token_New 5 15) (test_env 0 ''token-for-c'' 0) collide_p1)), [])"
proof -
  let ?c0 = "token_New 5 15"
  let ?e1 = "test_env 0 ''token-for-c'' 0"
  let ?e2 = "test_env 1 ''token-for-b|c'' 1"
  let ?T = "\<lparr>Value = ''token-for-c'', ExpiresAt = 15\<rparr>"
  let ?c1 = "fst (snd (Get ?c0 ?e1 collide_p1))"
  let ?tr1 = "snd (snd (Get ?c0 ?e1 collide_p1))"
  have g: "Get ?c0 ?e1 collide_p1 = (Inr ?T, ?c1, ?tr1)"
    by (simp add: token_eval)
  then have f: "fst (Get ?c0 ?e1 collide_p1) = Inr ?T" by (metis fst_conv)
  have w: "ExpiresAt ?T - now_lookup ?e2 > refreshBefore ?c0"
    by (simp add: token_New_def test_env_def)
  have k: "cacheKey collide_p1 = cacheKey collide_p2"
    using cacheKey_collision by blast
  have h: "Get ?c1 ?e2 collide_p2 = (Inr ?T, ?c1, [])"
    using cacheKey_collision [where ?p1.0 = collide_p1 and ?p2.0 = collide_p2 and c = ?c0
        and ?env1.0 = ?e1 and tok = ?T and ?c1.0 = ?c1 and ?tr1.0 = ?tr1 and ?env2.0 = ?e2,
        THEN conjunct2, THEN conjunct2, THEN conjunct2] k g w
    by blast
  from f h show ?thesis by (rule conjI)
qed

section \<open>Theorems about the memoized credentials provider\<close>

lemma loader_calls_for_simps [simp]:
  "loader_calls_for k [] = 0"
  "loader_calls_for k (c # tr) = (if loader_key c = Some k then 1 else 0) + loader_calls_for k tr"
  "loader_calls_for k (tr @ tr') = loader_calls_for k tr + loader_calls_for k tr'"
  by (simp_all add: loader_calls_for_def)

lemma loader_key_of_profile:
  "loader_key (LoaderCall (RDSRegion p) (if AWSProfile p \<noteq> [] then Some (AWSProfile p) else None))
     = Some (providerKey p)"
  by (simp add: providerKey_def)

lemma Get_trace:
  assumes "Get c env p = (r, c', tr)"
  shows
    "(\<exists>e. fresh_entry c (now_lookup env) (cacheKey p) = Some e \<and> r = Inr e \<and> c' = c \<and> tr = [])
     \<or> (fresh_entry c (now_lookup env) (cacheKey p) = None
        \<and> (\<exists>prov. awsProviders c (providerKey p) = Some prov
              \<and> awsProviders c' = awsProviders c
              \<and> tr = [BuilderCall (JoinHostPort (RDSHost p) (Itoa (RDSPort p)))
                         (RDSRegion p) (RDSDBUser p) prov]))
     \<or> (fresh_entry c (now_lookup env) (cacheKey p) = None
        \<and> awsProviders c (providerKey p) = None \<and> (\<exists>e. r = Inl (LoadAWSConfigError e))
        \<and> c' = c
        \<and> tr = [LoaderCall (RDSRegion p)
                   (if AWSProfile p \<noteq> [] then Some (AWSProfile p) else None)])
     \<or> (fresh_entry c (now_lookup env) (cacheKey p) = None
        \<and> awsProviders c (providerKey p) = None
        \<and> (\<exists>prov. loadDefaultAWSConfig env (RDSRegion p)
                     (if AWSProfile p \<noteq> [] then Some (AWSProfile p) else None) = Inr prov
              \<and> awsProviders c' = (awsProviders c)(providerKey p \<mapsto> prov)
              \<and> tr = [LoaderCall (RDSRegion p)
                         (if AWSProfile p \<noteq> [] then Some (AWSProfile p) else None),
                       BuilderCall (JoinHostPort (RDSHost p) (Itoa (RDSPort p)))
                         (RDSRegion p) (RDSDBUser p) prov]))"
  using assms
  by (auto simp: Get_def getOrInitProvider_def build_def Let_def
      split: option.splits sum.splits)

lemma Get_reuse:
  assumes memo: "awsProviders c (providerKey p) = Some prov"
    and get: "Get c env p = (r, c', tr)"
  shows "loader_calls tr = 0 \<and> awsProviders c' = awsProviders c
         \<and> (\<forall>e rg u v. BuilderCall e rg u v \<in> set tr \<longrightarrow> v = prov)"
  using Get_trace [OF get] memo by auto

lemma Gets_reuse:
  "awsProviders c k = Some prov \<Longrightarrow> \<forall>(env, p) \<in> set calls. providerKey p = k \<Longrightarrow>
   Gets c calls = (rs, c', tr) \<Longrightarrow>
   loader_calls tr = 0 \<and> awsProviders c' = awsProviders c
     \<and> (\<forall>e rg u v. BuilderCall e rg u v \<in> set tr \<longrightarrow> v = prov)"
proof (induction calls arbitrary: c rs c' tr)
  case Nil
  then show ?case by simp
next
  case (Cons a calls)
  obtain env p where a: "a = (env, p)" by (cases a)
  obtain r c1 tr1 where g: "Get c env p = (r, c1, tr1)" by (cases "Get c env p") auto
  obtain rs2 c2 tr2 where gs: "Gets c1 calls = (rs2, c2, tr2)"
    by (cases "Gets c1 calls") auto
  from Cons.prems(3) a g gs have tr: "tr = tr1 @ tr2" and c': "c' = c2" by simp_all
  from Cons.prems(2) a have k: "providerKey p = k"
    and rest: "\<forall>(env, p) \<in> set calls. providerKey p = k" by simp_all
  from Cons.prems(1) k have memo: "awsProviders c (providerKey p) = Some prov" by simp
  note one = Get_reuse [OF memo g]
  then have memo1: "awsProviders c1 k = Some prov" using Cons.prems(1) by simp
  from Cons.IH [OF memo1 rest gs] one tr c' show ?case by auto
qed

lemma Get_loads_for:
  assumes get: "Get c env p = (r, c', tr)" and ok: "succeeded r"
  shows "dom (awsProviders c) \<subseteq> dom (awsProviders c')
         \<and> loader_calls_for k tr
             = (if k \<in> dom (awsProviders c') \<and> k \<notin> dom (awsProviders c) then 1 else 0)"
proof -
  from Get_trace [OF get] consider
      (hit) "c' = c" "tr = []"
    | (memo) prov where "awsProviders c' = awsProviders c"
        "tr = [BuilderCall (JoinHostPort (RDSHost p) (Itoa (RDSPort p)))
                 (RDSRegion p) (RDSDBUser p) prov]"
    | (fail) e where "r = Inl (LoadAWSConfigError e)"
    | (load) prov where "awsProviders c (providerKey p) = None"
        "awsProviders c' = (awsProviders c)(providerKey p \<mapsto> prov)"
        "tr = [LoaderCall (RDSRegion p)
                 (if AWSProfile p \<noteq> [] then Some (AWSProfile p) else None),
               BuilderCall (JoinHostPort (RDSHost p) (Itoa (RDSPort p)))
                 (RDSRegion p) (RDSDBUser p) prov]"
    by blast
  then show ?thesis
  proof cases
    case hit
    then show ?thesis by simp
  next
    case memo
    then show ?thesis by simp
  next
    case fail
    with ok show ?thesis by (simp add: succeeded_def)
  next
    case load
    then show ?thesis by (auto simp: providerKey_def)
  qed
qed

lemma Gets_loads_for:
  "Gets c calls = (rs, c', tr) \<Longrightarrow> \<forall>r \<in> set rs. succeeded r \<Longrightarrow>
   dom (awsProviders c) \<subseteq> dom (awsProviders c')
     \<and> loader_calls_for k tr
         = (if k \<in> dom (awsProviders c') \<and> k \<notin> dom (awsProviders c) then 1 else 0)"
proof (induction calls arbitrary: c rs c' tr)
  case Nil
  then show ?case by simp
next
  case (Cons a calls)
  obtain env p where a: "a = (env, p)" by (cases a)
  obtain r c1 tr1 where g: "Get c env p = (r, c1, tr1)" by (cases "Get c env p") auto
  obtain rs2 c2 tr2 where gs: "Gets c1 calls = (rs2, c2, tr2)"
    by (cases "Gets c1 calls") auto
  from Cons.prems(1) a g gs have tr: "tr = tr1 @ tr2" and c': "c' = c2"
    and rs: "rs = r # rs2" by simp_all
  from Cons.prems(2) rs have ok: "succeeded r" and oks: "\<forall>r \<in> set rs2. succeeded r"
    by simp_all
  note one = Get_loads_for [OF g ok, of k]
  note more = Cons.IH [OF gs oks]
  from one more tr c' show ?case by auto
qed

lemma providerKey_pair:
  assumes "CHR ''|'' \<notin> set (RDSRegion p)" "CHR ''|'' \<notin> set (RDSRegion p')"
  shows "providerKey p = providerKey p'
           \<longleftrightarrow> RDSRegion p = RDSRegion p' \<and> AWSProfile p = AWSProfile p'"
proof
  assume eq: "providerKey p = providerKey p'"
  have tw: "\<And>q. CHR ''|'' \<notin> set (RDSRegion q)
              \<Longrightarrow> takeWhile (\<lambda>ch. ch \<noteq> CHR ''|'') (providerKey q) = RDSRegion q"
    by (auto simp: providerKey_def takeWhile_tail takeWhile_eq_all_conv)
  from eq tw [OF assms(1)] tw [OF assms(2)] have r: "RDSRegion p = RDSRegion p'" by simp
  with eq show "RDSRegion p = RDSRegion p' \<and> AWSProfile p = AWSProfile p'"
    by (simp add: providerKey_def)
next
  assume "RDSRegion p = RDSRegion p' \<and> AWSProfile p = AWSProfile p'"
  then show "providerKey p = providerKey p'" by (simp add: providerKey_def)
qed

lemma Get_steps_sequential:
  "Get_steps 6 env p AtLookup c = (case Get c env p of (r, c', tr) \<Rightarrow> (Returned r, c', tr))"
  by (auto simp: eval_nat_numeral Get_step_def Get_def getOrInitProvider_def Let_def
      split: option.splits sum.splits prod.splits)

text \<open>
  Claim C3, as amended, for calls of \<^verbatim>\<open>Get\<close> made one after the other. On a cache made by
  \<^verbatim>\<open>New\<close>, any non-empty sequence of successful calls for profiles that all carry the same
  region and the same named credential profile invokes the SDK-config loader exactly once,
  in its first call and with that pair; the provider loaded there is memoized under the
  pair's key and every token builder call of the sequence receives it, so every later call
  reuses it, also when it mints a new token. From any state of the cache, a call whose
  provider key is memoized invokes no loader, leaves the provider map as it is and passes
  the memoized provider to the builder. In any sequence of successful calls, for any
  profiles and from any state, the loader is invoked once for each provider key that the
  sequence adds to the provider map and not at all for any other key. Two profiles whose
  regions contain no \<open>|\<close> have the same provider key exactly when they carry the same
  pair. The steps of one call, taken with no other call in between, are the call.
\<close>

theorem provider_memoized_sequentially:
  "(calls \<noteq> [] \<and> (\<forall>(env, p) \<in> set calls. RDSRegion p = region \<and> AWSProfile p = prof)
      \<and> Gets (token_New rb ttl) calls = (rs, c, tr) \<and> (\<forall>r \<in> set rs. succeeded r)
      \<longrightarrow> loader_calls tr = 1
          \<and> hd tr = LoaderCall region (if prof \<noteq> [] then Some prof else None)
          \<and> (\<exists>prov. loadDefaultAWSConfig (fst (hd calls)) region
                        (if prof \<noteq> [] then Some prof else None) = Inr prov
                \<and> awsProviders c (region @ ''|'' @ prof) = Some prov
                \<and> (\<forall>e rg u v. BuilderCall e rg u v \<in> set tr \<longrightarrow> v = prov))) \<and>
   (awsProviders c1 (providerKey p1) = Some prov1 \<and> Get c1 env1 p1 = (r1, c1', tr1)
      \<longrightarrow> loader_calls tr1 = 0 \<and> awsProviders c1' = awsProviders c1
          \<and> (\<forall>e rg u v. BuilderCall e rg u v \<in> set tr1 \<longrightarrow> v = prov1)) \<and>
   (Gets c0 calls0 = (rs0, c0', tr0) \<and> (\<forall>r \<in> set rs0. succeeded r)
      \<longrightarrow> loader_calls_for k tr0
            = (if k \<in> dom (awsProviders c0') \<and> k \<notin> dom (awsProviders c0) then 1 else 0)) \<and>
   (CHR ''|'' \<notin> set (RDSRegion pa) \<and> CHR ''|'' \<notin> set (RDSRegion pb)
      \<longrightarrow> (providerKey pa = providerKey pb
            \<longleftrightarrow> RDSRegion pa = RDSRegion pb \<and> AWSProfile pa = AWSProfile pb)) \<and>
   Get_steps 6 env2 p2 AtLookup c2
     = (case Get c2 env2 p2 of (r, c', tr) \<Rightarrow> (Returned r, c', tr))"
proof -
  let ?shared = "if prof \<noteq> [] then Some prof else None"
  have pA: "calls \<noteq> [] \<and> (\<forall>(env, p) \<in> set calls. RDSRegion p = region \<and> AWSProfile p = prof)
      \<and> Gets (token_New rb ttl) calls = (rs, c, tr) \<and> (\<forall>r \<in> set rs. succeeded r)
      \<longrightarrow> loader_calls tr = 1 \<and> hd tr = LoaderCall region ?shared
          \<and> (\<exists>prov. loadDefaultAWSConfig (fst (hd calls)) region ?shared = Inr prov
                \<and> awsProviders c (region @ ''|'' @ prof) = Some prov
                \<and> (\<forall>e rg u v. BuilderCall e rg u v \<in> set tr \<longrightarrow> v = prov))"
  proof
    assume a: "calls \<noteq> [] \<and> (\<forall>(env, p) \<in> set calls. RDSRegion p = region \<and> AWSProfile p = prof)
      \<and> Gets (token_New rb ttl) calls = (rs, c, tr) \<and> (\<forall>r \<in> set rs. succeeded r)"
    then obtain env p rest where calls: "calls = (env, p) # rest"
      by (cases calls) auto
    obtain r cm trm where g: "Get (token_New rb ttl) env p = (r, cm, trm)"
      by (cases "Get (token_New rb ttl) env p") auto
    obtain rs2 cf tr2 where gs: "Gets cm rest = (rs2, cf, tr2)"
      by (cases "Gets cm rest") auto
    from a calls g gs have rs: "rs = r # rs2" and tr: "tr = trm @ tr2" and c: "c = cf"
      by simp_all
    from a rs have ok: "succeeded r" by simp
    from a calls have pair: "RDSRegion p = region" "AWSProfile p = prof"
      and rest: "\<forall>(env', p') \<in> set rest. providerKey p' = providerKey p"
      by (auto simp: providerKey_def)
    have key: "providerKey p = region @ ''|'' @ prof"
      using pair by (simp add: providerKey_def)
    have nofresh: "fresh_entry (token_New rb ttl) (now_lookup env) (cacheKey p) = None"
      by (simp add: fresh_entry_def token_New_def)
    have noprov: "awsProviders (token_New rb ttl) (providerKey p) = None"
      by (simp add: token_New_def)
    from Get_trace [OF g] nofresh noprov ok pair
    obtain prov where load: "loadDefaultAWSConfig env region ?shared = Inr prov"
      and memo: "awsProviders cm (providerKey p) = Some prov"
      and trm: "trm = [LoaderCall region ?shared,
                       BuilderCall (JoinHostPort (RDSHost p) (Itoa (RDSPort p)))
                         region (RDSDBUser p) prov]"
      by (auto simp: succeeded_def)
    note later = Gets_reuse [OF memo rest gs]
    from later trm tr have n: "loader_calls tr = 1" by simp
    from trm tr have h: "hd tr = LoaderCall region ?shared" by simp
    from later memo key c have m: "awsProviders c (region @ ''|'' @ prof) = Some prov"
      by simp
    from later trm tr have b: "\<forall>e rg u v. BuilderCall e rg u v \<in> set tr \<longrightarrow> v = prov"
      by auto
    from load calls have l: "loadDefaultAWSConfig (fst (hd calls)) region ?shared = Inr prov"
      by simp
    from n h l m b show "loader_calls tr = 1 \<and> hd tr = LoaderCall region ?shared
          \<and> (\<exists>prov. loadDefaultAWSConfig (fst (hd calls)) region ?shared = Inr prov
                \<and> awsProviders c (region @ ''|'' @ prof) = Some prov
                \<and> (\<forall>e rg u v. BuilderCall e rg u v \<in> set tr \<longrightarrow> v = prov))"
      by blast
  qed
  have pB: "awsProviders c1 (providerKey p1) = Some prov1 \<and> Get c1 env1 p1 = (r1, c1', tr1)
      \<longrightarrow> loader_calls tr1 = 0 \<and> awsProviders c1' = awsProviders c1
          \<and> (\<forall>e rg u v. BuilderCall e rg u v \<in> set tr1 \<longrightarrow> v = prov1)"
    using Get_reuse [of c1 p1 prov1 env1 r1 c1' tr1] by blast
  have pC: "Gets c0 calls0 = (rs0, c0', tr0) \<and> (\<forall>r \<in> set rs0. succeeded r)
      \<longrightarrow> loader_calls_for k tr0
            = (if k \<in> dom (awsProviders c0') \<and> k \<notin> dom (awsProviders c0) then 1 else 0)"
    using Gets_loads_for [of c0 calls0 rs0 c0' tr0 k] by blast
  have pD: "CHR ''|'' \<notin> set (RDSRegion pa) \<and> CHR ''|'' \<notin> set (RDSRegion pb)
      \<longrightarrow> (providerKey pa = providerKey pb
            \<longleftrightarrow> RDSRegion pa = RDSRegion pb \<and> AWSProfile pa = AWSProfile pb)"
    using providerKey_pair [of pa pb] by blast
  have pE: "Get_steps 6 env2 p2 AtLookup c2
     = (case Get c2 env2 p2 of (r, c', tr) \<Rightarrow> (Returned r, c', tr))"
    by (rule Get_steps_sequential)
  show ?thesis by (rule conjI [OF pA conjI [OF pB conjI [OF pC conjI [OF pD pE]]]])
qed

lemma port_digits:
  "char_of (51::nat) = CHR ''3''" "char_of (48::nat) = CHR ''0''" "char_of (54::nat) = CHR ''6''"
  by code_simp+

theorem provider_memoized_sequentially_witness:
  "loader_calls (snd (snd (Gets (token_New 20 15)
      [(provider_env 0 ''token-1'' 0 7, test_profile), (provider_env 1 ''token-2'' 1 8, test_profile)]))) = 1 \<and>
   builder_calls (snd (snd (Gets (token_New 20 15)
      [(provider_env 0 ''token-1'' 0 7, test_profile), (provider_env 1 ''token-2'' 1 8, test_profile)]))) = 2 \<and>
   loader_calls (snd (snd (Get
      (fst (snd (Get (token_New 20 15) (provider_env 0 ''token-1'' 0 7) test_profile)))
      (provider_env 1 ''token-2'' 1 8) test_profile))) = 0 \<and>
   loader_calls_for ''eu-west-1|dev'' (snd (snd (Gets (token_New 20 15)
      [(provider_env 0 ''token-1'' 0 7, test_profile), (provider_env 1 ''token-2'' 1 8, test_profile)]))) = 1 \<and>
   providerKey test_profile = providerKey (test_profile\<lparr>Name := ''p2''\<rparr>) \<and>
   snd (snd (Gets (token_New 20 15)
      [(provider_env 0 ''token-1'' 0 7, test_profile), (provider_env 1 ''token-2'' 1 8, test_profile)]))
     = [LoaderCall ''eu-west-1'' (Some ''dev''),
        BuilderCall ''db.example:3306'' ''eu-west-1'' ''db_user_1'' (Provider 7),
        BuilderCall ''db.example:3306'' ''eu-west-1'' ''db_user_1'' (Provider 7)]"
proof -
  let ?P = test_profile
  let ?e1 = "provider_env 0 ''token-1'' 0 7"
  let ?e2 = "provider_env 1 ''token-2'' 1 8"
  let ?calls = "[(?e1, ?P), (?e2, ?P)]"
  let ?run = "Gets (token_New 20 15) ?calls"
  let ?c1 = "fst (snd (Get (token_New 20 15) ?e1 ?P))"
  let ?g2 = "Get ?c1 ?e2 ?P"
  have h1: "?calls \<noteq> []" by simp
  have h2: "\<forall>(env, p) \<in> set ?calls. RDSRegion p = ''eu-west-1'' \<and> AWSProfile p = ''dev''"
    by (simp add: test_profile_def)
  have h3: "?run = (fst ?run, fst (snd ?run), snd (snd ?run))" by simp
  have h4: "\<forall>r \<in> set (fst ?run). succeeded r"
    by (simp add: token_eval provider_env_def succeeded_def)
  have a: "loader_calls (snd (snd ?run)) = 1"
    using provider_memoized_sequentially [where calls = ?calls and region = "''eu-west-1''"
        and prof = "''dev''" and rb = 20 and ttl = 15 and rs = "fst ?run"
        and c = "fst (snd ?run)" and tr = "snd (snd ?run)", THEN conjunct1] h1 h2 h3 h4
    by blast
  have b: "builder_calls (snd (snd ?run)) = 2"
    by (simp add: token_eval provider_env_def)
  have m: "awsProviders ?c1 (providerKey ?P) = Some (Provider 7)"
    by (simp add: token_eval provider_env_def)
  have g2: "?g2 = (fst ?g2, fst (snd ?g2), snd (snd ?g2))" by simp
  have r: "loader_calls (snd (snd ?g2)) = 0"
    using provider_memoized_sequentially [where ?c1.0 = ?c1 and ?p1.0 = ?P
        and ?prov1.0 = "Provider 7" and ?env1.0 = ?e2 and ?r1.0 = "fst ?g2"
        and c1' = "fst (snd ?g2)" and ?tr1.0 = "snd (snd ?g2)",
        THEN conjunct2, THEN conjunct1] m g2
    by blast
  have d1: "''eu-west-1|dev'' \<in> dom (awsProviders (fst (snd ?run)))"
    by (simp add: token_eval provider_env_def providerKey_def test_profile_def)
  have d0: "''eu-west-1|dev'' \<notin> dom (awsProviders (token_New 20 15))"
    by (simp add: token_New_def)
  have f: "loader_calls_for ''eu-west-1|dev'' (snd (snd ?run)) = 1"
    using provider_memoized_sequentially [where ?c0.0 = "token_New 20 15"
        and ?calls0.0 = ?calls and ?rs0.0 = "fst ?run" and c0' = "fst (snd ?run)"
        and ?tr0.0 = "snd (snd ?run)" and k = "''eu-west-1|dev''",
        THEN conjunct2, THEN conjunct2, THEN conjunct1] h3 h4 d1 d0
    by simp
  have nobar: "CHR ''|'' \<notin> set (RDSRegion ?P)
               \<and> CHR ''|'' \<notin> set (RDSRegion (?P\<lparr>Name := ''p2''\<rparr>))"
    by (simp add: test_profile_def)
  have k: "providerKey ?P = providerKey (?P\<lparr>Name := ''p2''\<rparr>)"
    using provider_memoized_sequentially [where pa = ?P and pb = "?P\<lparr>Name := ''p2''\<rparr>",
        THEN conjunct2, THEN conjunct2, THEN conjunct2, THEN conjunct1] nobar
    by simp
  have t: "snd (snd ?run)
     = [LoaderCall ''eu-west-1'' (Some ''dev''),
        BuilderCall ''db.example:3306'' ''eu-west-1'' ''db_user_1'' (Provider 7),
        BuilderCall ''db.example:3306'' ''eu-west-1'' ''db_user_1'' (Provider 7)]"
    by (simp add: token_eval provider_env_def test_profile_def JoinHostPort_def Itoa_def
        nat_digits.simps digit_char_def port_digits)
  show ?thesis by (rule conjI [OF a conjI [OF b conjI [OF r conjI [OF f conjI [OF k t]]]]])
qed

text \<open>
  Claim C3 as stated fails in two ways. Two calls for the same profile that overlap, as
  the refill goroutines started together by \<^verbatim>\<open>Start\<close> make them on a new cache, both
  find no provider before either has stored one: each invokes the loader, both succeed,
  and the loader has run twice for one pair. And on a cache that has served the pair
  (region \<open>a|b\<close>, profile \<open>c\<close>), two successful calls for the different pair (region
  \<open>a\<close>, profile \<open>b|c\<close>), which has the same key, invoke the loader zero times, also
  though each of them mints a token.
\<close>

theorem provider_loader_counterexample:
  "map (snd \<circ> snd)
     (fst (interleave [0, 0, 1, 1, 0, 0, 0, 0, 1, 1, 1, 1]
        [(test_env 0 ''token-1'' 0, test_profile, AtLookup),
         (test_env 0 ''token-2'' 0, test_profile, AtLookup)]
        (token_New 20 15)))
     = [Returned (Inr \<lparr>Value = ''token-1'', ExpiresAt = 15\<rparr>),
        Returned (Inr \<lparr>Value = ''token-2'', ExpiresAt = 15\<rparr>)] \<and>
   loader_calls (snd (snd (interleave [0, 0, 1, 1, 0, 0, 0, 0, 1, 1, 1, 1]
        [(test_env 0 ''token-1'' 0, test_profile, AtLookup),
         (test_env 0 ''token-2'' 0, test_profile, AtLookup)]
        (token_New 20 15)))) = 2 \<and>
   providerKey pk_p1 = providerKey pk_p2 \<and>
   (RDSRegion pk_p1, AWSProfile pk_p1) \<noteq> (RDSRegion pk_p2, AWSProfile pk_p2) \<and>
   fst (Gets (fst (snd (Gets (token_New 20 15) [(test_env 0 ''token-0'' 0, pk_p1)])))
          [(test_env 1 ''token-1'' 1, pk_p2), (test_env 2 ''token-2'' 2, pk_p2)])
     = [Inr \<lparr>Value = ''token-1'', ExpiresAt = 16\<rparr>, Inr \<lparr>Value = ''token-2'', ExpiresAt = 17\<rparr>] \<and>
   loader_calls (snd (snd (Gets
          (fst (snd (Gets (token_New 20 15) [(test_env 0 ''token-0'' 0, pk_p1)])))
          [(test_env 1 ''token-1'' 1, pk_p2), (test_env 2 ''token-2'' 2, pk_p2)]))) = 0"
proof -
  have a: "map (snd \<circ> snd)
     (fst (interleave [0, 0, 1, 1, 0, 0, 0, 0, 1, 1, 1, 1]
        [(test_env 0 ''token-1'' 0, test_profile, AtLookup),
         (test_env 0 ''token-2'' 0, test_profile, AtLookup)]
        (token_New 20 15)))
     = [Returned (Inr \<lparr>Value = ''token-1'', ExpiresAt = 15\<rparr>),
        Returned (Inr \<lparr>Value = ''token-2'', ExpiresAt = 15\<rparr>)] \<and>
   loader_calls (snd (snd (interleave [0, 0, 1, 1, 0, 0, 0, 0, 1, 1, 1, 1]
        [(test_env 0 ''token-1'' 0, test_profile, AtLookup),
         (test_env 0 ''token-2'' 0, test_profile, AtLookup)]
        (token_New 20 15)))) = 2"
    by (simp add: Get_step_def token_New_def test_env_def fresh_entry_def build_def Let_def)
  have b: "providerKey pk_p1 = providerKey pk_p2 \<and>
   (RDSRegion pk_p1, AWSProfile pk_p1) \<noteq> (RDSRegion pk_p2, AWSProfile pk_p2) \<and>
   fst (Gets (fst (snd (Gets (token_New 20 15) [(test_env 0 ''token-0'' 0, pk_p1)])))
          [(test_env 1 ''token-1'' 1, pk_p2), (test_env 2 ''token-2'' 2, pk_p2)])
     = [Inr \<lparr>Value = ''token-1'', ExpiresAt = 16\<rparr>, Inr \<lparr>Value = ''token-2'', ExpiresAt = 17\<rparr>] \<and>
   loader_calls (snd (snd (Gets
          (fst (snd (Gets (token_New 20 15) [(test_env 0 ''token-0'' 0, pk_p1)])))
          [(test_env 1 ''token-1'' 1, pk_p2), (test_env 2 ''token-2'' 2, pk_p2)]))) = 0"
    by (simp add: token_eval pk_p1_def pk_p2_def providerKey_def cacheKey_def test_profile_def)
  from a b show ?thesis by blast
qed

section \<open>Theorems about the backend pool\<close>

lemma summary_lines_summary [simp]:
  "summary_lines (summary sd lr) = (if sd > 0 then 1 else 0)"
  by (simp add: summary_def summary_lines_def)

lemma closed_conns_summary [simp]: "closed_conns (summary sd lr) = []"
  by (simp add: summary_def)

lemma summary_lines_append [simp]:
  "summary_lines (xs @ ys) = summary_lines xs + summary_lines ys"
  by (simp add: summary_lines_def)

lemma summary_lines_Cons [simp]:
  "summary_lines (e # xs) = (if is_summary e then 1 else 0) + summary_lines xs"
  by (simp add: summary_lines_def)

lemma summary_lines_Nil [simp]: "summary_lines [] = 0"
  by (simp add: summary_lines_def)

lemma closed_conns_append [simp]:
  "closed_conns (xs @ ys) = closed_conns xs @ closed_conns ys"
  by (induction xs rule: closed_conns.induct) simp_all

lemma summary_reports:
  "LogInfo msg n reason \<in> set (summary sd lr) \<Longrightarrow> n = sd \<and> reason = lr \<and> 0 < sd"
  by (simp add: summary_def split: if_splits)

lemma ping_failed_simps [simp]:
  "ping_failed maxLife [] = []"
  "ping_failed maxLife (CtxDone ctxErr # evs) = []"
  "ping_failed maxLife (ReceivedNil # evs) = []"
  "ping_failed maxLife (ChannelEmpty # evs) = []"
  "ping_failed maxLife (Received pooled now ping # evs) =
     (if now - pc_createdAt pooled > maxLife then ping_failed maxLife evs
      else if ping \<noteq> None then (pooled, ping) # ping_failed maxLife evs
      else [])"
  by (simp_all add: ping_failed_def)

lemma aged_out_simps [simp]:
  "aged_out maxLife [] = []"
  "aged_out maxLife (CtxDone ctxErr # evs) = []"
  "aged_out maxLife (ReceivedNil # evs) = []"
  "aged_out maxLife (ChannelEmpty # evs) = []"
  "aged_out maxLife (Received pooled now ping # evs) =
     (if now - pc_createdAt pooled > maxLife then (pooled, None) # aged_out maxLife evs
      else if ping \<noteq> None then aged_out maxLife evs
      else [])"
  by (simp_all add: aged_out_def)

lemma discarded_split:
  "length (discarded_sessions maxLife evs)
     = length (aged_out maxLife evs) + length (ping_failed maxLife evs)"
  unfolding aged_out_def ping_failed_def
  using sum_length_filter_compl [of "\<lambda>d. snd d = None" "discarded_sessions maxLife evs"]
  by simp

lemma Borrow_loop_summary:
  "Borrow_loop maxLife factory sd lr evs = Some (r, effs) \<Longrightarrow>
     summary_lines effs = (if sd + length (ping_failed maxLife evs) > 0 then 1 else 0) \<and>
     (\<forall>msg n reason. LogInfo msg n reason \<in> set effs \<longrightarrow>
        0 < n \<and> n = sd + length (ping_failed maxLife evs) \<and>
        reason = (if ping_failed maxLife evs = [] then lr
                  else compactErr (snd (last (ping_failed maxLife evs))))) \<and>
     closed_conns effs = map (\<lambda>d. pc_conn (fst d)) (discarded_sessions maxLife evs)"
proof (induction maxLife factory sd lr evs arbitrary: r effs rule: Borrow_loop.induct)
  case (1 maxLife factory sd lr)
  then show ?case by simp
next
  case (2 maxLife factory sd lr ctxErr evs)
  then show ?case by (auto dest: summary_reports)
next
  case (3 maxLife factory sd lr evs)
  then show ?case by (auto dest: summary_reports)
next
  case (4 maxLife factory sd lr pooled now ping evs)
  show ?case
  proof (cases "now - pc_createdAt pooled > maxLife")
    case True
    with "4.prems" obtain effs' where
      rec: "Borrow_loop maxLife factory sd lr evs = Some (r, effs')"
      and effs: "effs = [CloseConn (pc_conn pooled), GoFillOne] @ effs'"
      by (auto simp: continue_with_def)
    from "4.IH"(1) [OF True rec] effs True show ?thesis by auto
  next
    case old: False
    show ?thesis
    proof (cases "ping \<noteq> None")
      case True
      with old "4.prems" obtain effs' where
        rec: "Borrow_loop maxLife factory (sd + 1) (compactErr ping) evs = Some (r, effs')"
        and effs: "effs = [LogDebug ''discarding stale pooled connection'' (compactErr ping),
                           CloseConn (pc_conn pooled), GoFillOne] @ effs'"
        by (auto simp: continue_with_def Let_def)
      from "4.IH"(2) [OF old True refl rec] effs old True show ?thesis by auto
    next
      case False
      with old "4.prems" show ?thesis by (auto dest: summary_reports)
    qed
  qed
next
  case (5 maxLife factory sd lr evs)
  then show ?case by (auto dest: summary_reports)
qed

text \<open>
  Claim C2, as amended. In a call of \<^verbatim>\<open>Borrow\<close> that returns, the number of summary
  lines is 0 or 1, and it is 0 if and only if no session failing the liveness check was
  discarded during the call. A summary line reports the number of the sessions discarded
  for a failed liveness check and the compacted error of the last of them. Sessions
  discarded because they are older than the maximum age are closed like the others, and
  are not counted: the connections closed are those of all the sessions discarded, of
  both kinds, in order.
\<close>

theorem Borrow_one_summary:
  "Borrow maxLife factory evs = Some (r, effs) \<Longrightarrow>
     summary_lines effs \<le> 1 \<and>
     (summary_lines effs = 0 \<longleftrightarrow> ping_failed maxLife evs = []) \<and>
     (\<forall>msg n reason. LogInfo msg n reason \<in> set effs \<longrightarrow>
        n = length (ping_failed maxLife evs) \<and>
        reason = compactErr (snd (last (ping_failed maxLife evs)))) \<and>
     closed_conns effs = map (\<lambda>d. pc_conn (fst d)) (discarded_sessions maxLife evs) \<and>
     length (discarded_sessions maxLife evs)
       = length (aged_out maxLife evs) + length (ping_failed maxLife evs)"
proof -
  assume run: "Borrow maxLife factory evs = Some (r, effs)"
  then have loop: "Borrow_loop maxLife factory 0 [] evs = Some (r, effs)"
    by (simp add: Borrow_def)
  note L = Borrow_loop_summary [OF loop]
  from L have p1: "summary_lines effs \<le> 1" by simp
  from L have p2: "summary_lines effs = 0 \<longleftrightarrow> ping_failed maxLife evs = []" by simp
  have p3: "\<forall>msg n reason. LogInfo msg n reason \<in> set effs \<longrightarrow>
        n = length (ping_failed maxLife evs) \<and>
        reason = compactErr (snd (last (ping_failed maxLife evs)))"
  proof (intro allI impI)
    fix msg n reason assume "LogInfo msg n reason \<in> set effs"
    with L have "0 < n" and n: "n = length (ping_failed maxLife evs)"
      and re: "reason = (if ping_failed maxLife evs = [] then []
                  else compactErr (snd (last (ping_failed maxLife evs))))"
      by auto
    from \<open>0 < n\<close> n have "ping_failed maxLife evs \<noteq> []" by auto
    with n re show "n = length (ping_failed maxLife evs) \<and>
        reason = compactErr (snd (last (ping_failed maxLife evs)))" by simp
  qed
  from L have p4: "closed_conns effs
      = map (\<lambda>d. pc_conn (fst d)) (discarded_sessions maxLife evs)" by simp
  have p5: "length (discarded_sessions maxLife evs)
       = length (aged_out maxLife evs) + length (ping_failed maxLife evs)"
    by (rule discarded_split)
  show ?thesis by (rule conjI [OF p1 conjI [OF p2 conjI [OF p3 conjI [OF p4 p5]]]])
qed

lemmas pool_eval =
  Borrow_def continue_with_def summary_def compactErr_def TrimSpace_def trim_runes.simps
  strip_rune_def space_runes_def Let_def

theorem Borrow_one_summary_witness:
  "Borrow 60 (Inr 9)
      [Received \<lparr>pc_conn = 1, pc_createdAt = 0\<rparr> 100 None,
       Received \<lparr>pc_conn = 2, pc_createdAt = 90\<rparr> 101 (Some ''write: broken pipe''),
       Received \<lparr>pc_conn = 3, pc_createdAt = 90\<rparr> 102 (Some '' EOF ''),
       Received \<lparr>pc_conn = 4, pc_createdAt = 90\<rparr> 103 None]
     = Some (Inr 4,
         [CloseConn 1, GoFillOne,
          LogDebug ''discarding stale pooled connection'' ''write: broken pipe'', CloseConn 2,
          GoFillOne,
          LogDebug ''discarding stale pooled connection'' ''EOF'', CloseConn 3, GoFillOne,
          GoFillOne, LogInfo ''refreshed stale pooled connections'' 2 ''EOF'']) \<and>
   length (ping_failed 60
      [Received \<lparr>pc_conn = 1, pc_createdAt = 0\<rparr> 100 None,
       Received \<lparr>pc_conn = 2, pc_createdAt = 90\<rparr> 101 (Some ''write: broken pipe''),
       Received \<lparr>pc_conn = 3, pc_createdAt = 90\<rparr> 102 (Some '' EOF ''),
       Received \<lparr>pc_conn = 4, pc_createdAt = 90\<rparr> 103 None]) = 2 \<and>
   length (aged_out 60
      [Received \<lparr>pc_conn = 1, pc_createdAt = 0\<rparr> 100 None,
       Received \<lparr>pc_conn = 2, pc_createdAt = 90\<rparr> 101 (Some ''write: broken pipe''),
       Received \<lparr>pc_conn = 3, pc_createdAt = 90\<rparr> 102 (Some '' EOF ''),
       Received \<lparr>pc_conn = 4, pc_createdAt = 90\<rparr> 103 None]) = 1"
proof -
  let ?evs = "[Received \<lparr>pc_conn = 1, pc_createdAt = 0\<rparr> 100 None,
       Received \<lparr>pc_conn = 2, pc_createdAt = 90\<rparr> 101 (Some ''write: broken pipe''),
       Received \<lparr>pc_conn = 3, pc_createdAt = 90\<rparr> 102 (Some '' EOF ''),
       Received \<lparr>pc_conn = 4, pc_createdAt = 90\<rparr> 103 None]"
  let ?effs = "[CloseConn 1, GoFillOne,
          LogDebug ''discarding stale pooled connection'' ''write: broken pipe'', CloseConn 2,
          GoFillOne,
          LogDebug ''discarding stale pooled connection'' ''EOF'', CloseConn 3, GoFillOne,
          GoFillOne, LogInfo ''refreshed stale pooled connections'' 2 ''EOF'']"
  have run: "Borrow 60 (Inr 9) ?evs = Some (Inr 4, ?effs)"
    by (simp add: pool_eval)
  note T = Borrow_one_summary [OF run]
  have info: "LogInfo ''refreshed stale pooled connections'' 2 ''EOF'' \<in> set ?effs" by simp
  from T [THEN conjunct2, THEN conjunct2, THEN conjunct1, rule_format, OF info]
  have a: "length (ping_failed 60 ?evs) = 2" by simp
  from T [THEN conjunct2, THEN conjunct2, THEN conjunct2]
  have cl: "closed_conns ?effs = map (\<lambda>d. pc_conn (fst d)) (discarded_sessions 60 ?evs)"
    and sp: "length (discarded_sessions 60 ?evs)
               = length (aged_out 60 ?evs) + length (ping_failed 60 ?evs)"
    by blast+
  from cl have "length (discarded_sessions 60 ?evs) = length (closed_conns ?effs)"
    by (metis length_map)
  then have "length (discarded_sessions 60 ?evs) = 3" by simp
  with sp a have b: "length (aged_out 60 ?evs) = 1" by simp
  show ?thesis by (rule conjI [OF run conjI [OF a b]])
qed

text \<open>
  Claim C2 as stated fails on a session discarded for its age: the only pooled session is
  older than the maximum age (created at 0, seen at 100, maximum age 10), it is closed and
  replaced, the pool is then empty and the factory is called; no summary line is written
  although a stale session was discarded.
\<close>

theorem Borrow_age_discard_counterexample:
  "Borrow 10 (Inr 7) [Received \<lparr>pc_conn = 1, pc_createdAt = 0\<rparr> 100 None, ChannelEmpty]
     = Some (Inr 7, [CloseConn 1, GoFillOne, CallFactory]) \<and>
   (100::int) - pc_createdAt \<lparr>pc_conn = 1, pc_createdAt = 0\<rparr> > 10 \<and>
   discarded_sessions 10 [Received \<lparr>pc_conn = 1, pc_createdAt = 0\<rparr> 100 None, ChannelEmpty]
     = [(\<lparr>pc_conn = 1, pc_createdAt = 0\<rparr>, None)] \<and>
   closed_conns [CloseConn 1, GoFillOne, CallFactory] = [1] \<and>
   summary_lines [CloseConn 1, GoFillOne, CallFactory] = 0"
  by (simp add: Borrow_def continue_with_def summary_def)

section \<open>Theorems about errors, the pipe and the tracked sessions\<close>

lemma HasPrefix_iff: "HasPrefix s p \<longleftrightarrow> (\<exists>t. s = p @ t)"
  by (induction s p rule: HasPrefix.induct) auto

lemma Contains_iff: "Contains s substr \<longleftrightarrow> (\<exists>a b. s = a @ substr @ b)"
proof (induction s)
  case Nil
  then show ?case by auto
next
  case (Cons x xs)
  show ?case
  proof
    assume "Contains (x # xs) substr"
    then consider "HasPrefix (x # xs) substr" | "Contains xs substr" by auto
    then show "\<exists>a b. x # xs = a @ substr @ b"
    proof cases
      case 1
      then obtain t where "x # xs = substr @ t" by (auto simp: HasPrefix_iff)
      then have "x # xs = [] @ substr @ t" by simp
      then show ?thesis by blast
    next
      case 2
      with Cons.IH obtain a b where "xs = a @ substr @ b" by auto
      then have "x # xs = (x # a) @ substr @ b" by simp
      then show ?thesis by blast
    qed
  next
    assume "\<exists>a b. x # xs = a @ substr @ b"
    then obtain a b where ab: "x # xs = a @ substr @ b" by auto
    show "Contains (x # xs) substr"
    proof (cases a)
      case Nil
      with ab have "HasPrefix (x # xs) substr" by (auto simp: HasPrefix_iff)
      then show ?thesis by simp
    next
      case (Cons y ys)
      with ab have "xs = ys @ substr @ b" by simp
      with Cons.IH have "Contains xs substr" by auto
      then show ?thesis by simp
    qed
  qed
qed

lemma Contains_in_context:
  assumes "Contains s substr"
  shows "Contains (before @ s @ after) substr"
proof -
  from assms obtain a b where "s = a @ substr @ b" by (auto simp: Contains_iff)
  then have "before @ s @ after = (before @ a) @ substr @ (b @ after)" by simp
  then show ?thesis unfolding Contains_iff by blast
qed

lemma Contains_self: "Contains s s"
  unfolding Contains_iff by (rule exI [of _ "[]"], rule exI [of _ "[]"]) simp

lemma errors_Is_EOF_message: "errors_Is e EOF \<Longrightarrow> Contains (Error e) ''EOF''"
proof (induction e)
  case (Wrapped before e after)
  then have "Contains (Error e) ''EOF''" by simp
  then show ?case by (simp only: Error.simps Contains_in_context)
qed (simp_all)

lemma errors_Is_ErrClosed_message:
  "errors_Is e ErrClosed \<Longrightarrow> Contains (Error e) ''use of closed network connection''"
proof (induction e)
  case (Wrapped before e after)
  then have "Contains (Error e) ''use of closed network connection''" by simp
  then show ?case by (simp only: Error.simps Contains_in_context)
qed (simp_all)

text \<open>
  Claim C6. \<^verbatim>\<open>isConnCloseErr\<close> is true for \<^verbatim>\<open>io.EOF\<close>, for \<^verbatim>\<open>net.ErrClosed\<close> and for
  every error whose message contains \<open>broken pipe\<close>, \<open>connection reset by peer\<close> or
  \<open>use of closed network connection\<close>; it is false for a \<^verbatim>\<open>nil\<close> error and for every error
  whose message is \<open>unexpected protocol failure\<close>.
\<close>

theorem isConnCloseErr_classification:
  "isConnCloseErr (Some EOF) \<and>
   isConnCloseErr (Some ErrClosed) \<and>
   ((\<exists>a b. Error e = a @ ''broken pipe'' @ b)
      \<or> (\<exists>a b. Error e = a @ ''connection reset by peer'' @ b)
      \<or> (\<exists>a b. Error e = a @ ''use of closed network connection'' @ b)
      \<longrightarrow> isConnCloseErr (Some e)) \<and>
   \<not> isConnCloseErr None \<and>
   (Error e' = ''unexpected protocol failure'' \<longrightarrow> \<not> isConnCloseErr (Some e'))"
proof -
  have p1: "isConnCloseErr (Some EOF)" by (simp add: isConnCloseErr_def)
  have p2: "isConnCloseErr (Some ErrClosed)" by (simp add: isConnCloseErr_def)
  have p3: "(\<exists>a b. Error e = a @ ''broken pipe'' @ b)
      \<or> (\<exists>a b. Error e = a @ ''connection reset by peer'' @ b)
      \<or> (\<exists>a b. Error e = a @ ''use of closed network connection'' @ b)
      \<longrightarrow> isConnCloseErr (Some e)"
    unfolding Contains_iff [symmetric]
    by (simp add: isConnCloseErr_def isUseOfClosedConn_def)
  have p4: "\<not> isConnCloseErr None" by (simp add: isConnCloseErr_def)
  have p5: "Error e' = ''unexpected protocol failure'' \<longrightarrow> \<not> isConnCloseErr (Some e')"
  proof
    assume m: "Error e' = ''unexpected protocol failure''"
    have "\<not> errors_Is e' EOF"
    proof
      assume "errors_Is e' EOF"
      from errors_Is_EOF_message [OF this] m show False by simp
    qed
    moreover have "\<not> errors_Is e' ErrClosed"
    proof
      assume "errors_Is e' ErrClosed"
      from errors_Is_ErrClosed_message [OF this] m show False by simp
    qed
    ultimately show "\<not> isConnCloseErr (Some e')"
      using m by (simp add: isConnCloseErr_def isUseOfClosedConn_def)
  qed
  show ?thesis by (rule conjI [OF p1 conjI [OF p2 conjI [OF p3 conjI [OF p4 p5]]]])
qed

theorem isConnCloseErr_classification_witness:
  "isConnCloseErr (Some (ErrorString ''write: broken pipe'')) \<and>
   isConnCloseErr (Some (Wrapped ''read tcp 127.0.0.1:3307: '' (ErrorString ''connection reset by peer'') [])) \<and>
   \<not> isConnCloseErr (Some (ErrorString ''unexpected protocol failure''))"
proof -
  have a: "\<exists>a b. Error (ErrorString ''write: broken pipe'') = a @ ''broken pipe'' @ b"
    by (rule exI [of _ "''write: ''"], rule exI [of _ "[]"]) simp
  have b: "\<exists>a b. Error (Wrapped ''read tcp 127.0.0.1:3307: ''
                    (ErrorString ''connection reset by peer'') [])
             = a @ ''connection reset by peer'' @ b"
    by (rule exI [of _ "''read tcp 127.0.0.1:3307: ''"], rule exI [of _ "[]"]) simp
  have c: "Error (ErrorString ''unexpected protocol failure'') = ''unexpected protocol failure''"
    by simp
  have w1: "isConnCloseErr (Some (ErrorString ''write: broken pipe''))"
    using isConnCloseErr_classification [where e = "ErrorString ''write: broken pipe''"] a
    by blast
  have w2: "isConnCloseErr (Some (Wrapped ''read tcp 127.0.0.1:3307: ''
                (ErrorString ''connection reset by peer'') []))"
    using isConnCloseErr_classification [where e = "Wrapped ''read tcp 127.0.0.1:3307: ''
                (ErrorString ''connection reset by peer'') []"] b
    by blast
  have w3: "\<not> isConnCloseErr (Some (ErrorString ''unexpected protocol failure''))"
    using isConnCloseErr_classification
      [where e' = "ErrorString ''unexpected protocol failure''"] c
    by blast
  show ?thesis by (rule conjI [OF w1 conjI [OF w2 w3]])
qed

text \<open>
  Claim C5, the returned counts. \<^verbatim>\<open>pipe\<close> assigns \<^verbatim>\<open>up\<close> from the result that arrives
  first and \<^verbatim>\<open>down\<close> from the one that arrives second. When the backend-to-client copy
  ends first, the first value returned is the backend-to-client count and the second one the
  client-to-backend count: with 13 bytes copied from client to backend and 12 from backend
  to client, \<^verbatim>\<open>pipe\<close> returns \<open>(12, 13)\<close>.
\<close>

theorem pipe_counts_follow_completion_order:
  "fst (pipe BackendToClient client_to_backend backend_to_client) = cr_n backend_to_client \<and>
   fst (snd (pipe BackendToClient client_to_backend backend_to_client)) = cr_n client_to_backend \<and>
   pipe BackendToClient \<lparr>cr_n = 13, cr_err = None\<rparr> \<lparr>cr_n = 12, cr_err = None\<rparr>
     = (12, 13, None)"
  by (simp add: pipe_def Let_def)

lemma oldest_fold:
  "fold (\<lambda>(connID, tc) oldestAge.
           (let age = now - tc_startedAt tc in if age > oldestAge then age else oldestAge))
        active acc
     = fold max (ages now active) acc"
  by (induction active arbitrary: acc) (auto simp: ages_def Let_def max_def)

lemma activeSummary_oldest:
  "snd (activeSummary now active) = Max (set (0 # ages now active))"
  by (simp only: activeSummary_def snd_conv oldest_fold Max.set_eq_fold)

lemma close_pair_fold:
  "fst (fold close_pair pairs acc)
     = fst acc + length (filter (\<lambda>item. fst item \<noteq> None) pairs)
         + length (filter (\<lambda>item. snd item \<noteq> None) pairs) \<and>
   set (snd (fold close_pair pairs acc))
     = set (snd acc) \<union> {s. \<exists>item \<in> set pairs. fst item = Some s \<or> snd item = Some s}"
proof (induction pairs arbitrary: acc)
  case Nil
  then show ?case by simp
next
  case (Cons item pairs)
  have step: "fst (close_pair item acc)
                = fst acc + (if fst item \<noteq> None then 1 else 0) + (if snd item \<noteq> None then 1 else 0)
              \<and> set (snd (close_pair item acc))
                = set (snd acc) \<union> {s. fst item = Some s \<or> snd item = Some s}"
    by (auto simp: close_pair_def Let_def split: option.splits)
  from Cons.IH [of "close_pair item acc"] step show ?case by auto
qed

lemma forceCloseActive_count:
  "fst (forceCloseActive active) = with_client active + with_backend active"
proof -
  have "length (filter (\<lambda>item. fst item \<noteq> None)
            (map (\<lambda>(connID, tc). (tc_client tc, tc_backend tc)) active))
          = with_client active"
    by (induction active) (auto simp: with_client_def)
  moreover have "length (filter (\<lambda>item. snd item \<noteq> None)
            (map (\<lambda>(connID, tc). (tc_client tc, tc_backend tc)) active))
          = with_backend active"
    by (induction active) (auto simp: with_backend_def)
  ultimately show ?thesis
    using close_pair_fold [of "map (\<lambda>(connID, tc). (tc_client tc, tc_backend tc)) active" "(0, [])"]
    by (simp add: forceCloseActive_def Let_def)
qed

lemma forceCloseActive_sockets:
  "set (snd (forceCloseActive active))
     = {s. \<exists>(connID, tc) \<in> set active. tc_client tc = Some s \<or> tc_backend tc = Some s}"
proof -
  let ?pairs = "map (\<lambda>(connID, tc). (tc_client tc, tc_backend tc)) active"
  from close_pair_fold [of ?pairs "(0, [])"]
  have "set (snd (forceCloseActive active))
          = {s. \<exists>item \<in> set ?pairs. fst item = Some s \<or> snd item = Some s}"
    by (simp add: forceCloseActive_def Let_def)
  also have "\<dots> = {s. \<exists>(connID, tc) \<in> set active. tc_client tc = Some s \<or> tc_backend tc = Some s}"
    by (force simp: case_prod_beta)
  finally show ?thesis .
qed

lemma backend_split: "with_backend active + without_backend active = length active"
  by (induction active) (auto simp: with_backend_def without_backend_def)

text \<open>
  Claim C7, as amended. \<^verbatim>\<open>activeSummary\<close> returns the number of tracked sessions and the
  largest of 0 and the ages \<open>now - startedAt\<close> of the sessions, which is the largest age as
  soon as one session did not start after \<open>now\<close>; it returns \<open>(0, 0)\<close> for the empty map.
  \<^verbatim>\<open>forceCloseActive\<close> closes exactly the client sockets that are not \<^verbatim>\<open>nil\<close> and the
  backend sockets attached, and returns the number of sockets closed; when every tracked
  session has a client socket this is twice the number of sessions with a backend plus the
  number of sessions without one.
\<close>

theorem shutdown_accounting:
  "fst (activeSummary now active) = length active \<and>
   snd (activeSummary now active) = Max (set (0 # ages now active)) \<and>
   ((\<exists>age \<in> set (ages now active). 0 \<le> age)
      \<longrightarrow> snd (activeSummary now active) = Max (set (ages now active))) \<and>
   (active = [] \<longrightarrow> activeSummary now active = (0, 0)) \<and>
   set (snd (forceCloseActive active))
     = {s. \<exists>(connID, tc) \<in> set active. tc_client tc = Some s \<or> tc_backend tc = Some s} \<and>
   fst (forceCloseActive active) = with_client active + with_backend active \<and>
   ((\<forall>(connID, tc) \<in> set active. tc_client tc \<noteq> None)
      \<longrightarrow> fst (forceCloseActive active) = 2 * with_backend active + without_backend active)"
proof -
  have p1: "fst (activeSummary now active) = length active"
    by (simp add: activeSummary_def)
  have p2: "snd (activeSummary now active) = Max (set (0 # ages now active))"
    by (rule activeSummary_oldest)
  have p3: "(\<exists>age \<in> set (ages now active). 0 \<le> age)
      \<longrightarrow> snd (activeSummary now active) = Max (set (ages now active))"
  proof
    assume "\<exists>age \<in> set (ages now active). 0 \<le> age"
    then obtain age where age: "age \<in> set (ages now active)" "0 \<le> age" by auto
    then have ne: "set (ages now active) \<noteq> {}" by auto
    from age have "0 \<le> Max (set (ages now active))"
      by (meson List.finite_set Max_ge order_trans)
    with ne have "Max (set (0 # ages now active)) = Max (set (ages now active))"
      by (simp add: max_def)
    with p2 show "snd (activeSummary now active) = Max (set (ages now active))" by simp
  qed
  have p4: "active = [] \<longrightarrow> activeSummary now active = (0, 0)"
    by (simp add: activeSummary_def)
  have p5: "set (snd (forceCloseActive active))
     = {s. \<exists>(connID, tc) \<in> set active. tc_client tc = Some s \<or> tc_backend tc = Some s}"
    by (rule forceCloseActive_sockets)
  have p6: "fst (forceCloseActive active) = with_client active + with_backend active"
    by (rule forceCloseActive_count)
  have p7: "(\<forall>(connID, tc) \<in> set active. tc_client tc \<noteq> None)
      \<longrightarrow> fst (forceCloseActive active) = 2 * with_backend active + without_backend active"
  proof
    assume all: "\<forall>(connID, tc) \<in> set active. tc_client tc \<noteq> None"
    then have "filter (\<lambda>(connID, tc). tc_client tc \<noteq> None) active = active"
      by (intro filter_True) auto
    then have "with_client active = length active" by (simp add: with_client_def)
    with p6 backend_split [of active]
    show "fst (forceCloseActive active) = 2 * with_backend active + without_backend active"
      by simp
  qed
  show ?thesis
    by (rule conjI [OF p1 conjI [OF p2 conjI [OF p3 conjI [OF p4 conjI [OF p5
          conjI [OF p6 p7]]]]]])
qed

lemmas tracking_eval =
  trackClient_def trackBackend_def untrack_def activeSummary_def forceCloseActive_def
  close_pair_def ages_def with_backend_def without_backend_def with_client_def Let_def

theorem shutdown_accounting_witness:
  "activeSummary 10 (trackBackend 42 (Some 2) (trackClient 42 (Some 1) 8 [])) = (1, 2) \<and>
   Max (set (ages 10 (trackBackend 42 (Some 2) (trackClient 42 (Some 1) 8 [])))) = 2 \<and>
   fst (forceCloseActive (trackBackend 42 (Some 2) (trackClient 42 (Some 1) 8 []))) = 2 \<and>
   set (snd (forceCloseActive (trackBackend 42 (Some 2) (trackClient 42 (Some 1) 8 [])))) = {1, 2} \<and>
   activeSummary 10 (untrack 7 (trackClient 7 (Some 1) 10 [])) = (0, 0)"
proof -
  let ?act = "trackBackend 42 (Some 2) (trackClient 42 (Some 1) 8 [])"
  have act: "?act = [(42, \<lparr>tc_client = Some 1, tc_backend = Some 2, tc_startedAt = 8\<rparr>)]"
    by (simp add: tracking_eval)
  have h1: "\<exists>age \<in> set (ages 10 ?act). 0 \<le> age"
    unfolding act by (simp add: ages_def)
  have h2: "\<forall>(connID, tc) \<in> set ?act. tc_client tc \<noteq> None"
    unfolding act by simp
  have h3: "untrack 7 (trackClient 7 (Some 1) 10 []) = []" by (simp add: tracking_eval)
  note T = shutdown_accounting [of 10 ?act]
  have a: "activeSummary 10 ?act = (1, 2)"
    using T unfolding act by (simp add: ages_def prod_eq_iff)
  have b: "Max (set (ages 10 ?act)) = 2"
    using T h1 a by simp
  have c: "fst (forceCloseActive ?act) = 2"
    using T h2 unfolding act by (simp add: with_backend_def without_backend_def)
  have d: "set (snd (forceCloseActive ?act)) = {1, 2}"
    using T unfolding act by auto
  have e: "activeSummary 10 (untrack 7 (trackClient 7 (Some 1) 10 [])) = (0, 0)"
    using shutdown_accounting [of 10 "untrack 7 (trackClient 7 (Some 1) 10 [])"] h3 by simp
  show ?thesis by (rule conjI [OF a conjI [OF b conjI [OF c conjI [OF d e]]]])
qed

text \<open>
  Claim C7 as stated fails in two states of the map. A session whose start instant is
  after the \<open>now\<close> that \<^verbatim>\<open>activeSummary\<close> read before taking the lock has a negative age:
  the maximum of the ages is \<open>-5\<close> and the function returns 0. A tracked session with a
  \<^verbatim>\<open>nil\<close> client and a backend attached makes \<^verbatim>\<open>forceCloseActive\<close> return 1, where twice
  the sessions with a backend plus the sessions without one is 2.
\<close>

theorem shutdown_accounting_counterexample:
  "activeSummary 10 (trackClient 1 (Some 5) 15 []) = (1, 0) \<and>
   Max (set (ages 10 (trackClient 1 (Some 5) 15 []))) = - 5 \<and>
   forceCloseActive (trackBackend 2 (Some 6) (trackClient 2 None 0 [])) = (1, [6]) \<and>
   2 * with_backend (trackBackend 2 (Some 6) (trackClient 2 None 0 []))
     + without_backend (trackBackend 2 (Some 6) (trackClient 2 None 0 [])) = 2"
  by (simp add: tracking_eval)

section \<open>Theorems about the connection semaphore\<close>

lemma proxy_inv_New: "proxy_inv (proxy_New m)"
  by (simp add: proxy_inv_def proxy_New_def)

lemma proxy_inv_step:
  assumes "step s s'" and "proxy_inv s"
  shows "proxy_inv s'"
  using assms
proof (cases rule: step.cases)
  case accept_ok
  with assms(2) show ?thesis by (auto simp: proxy_inv_def)
next
  case accept_closed
  with assms(2) show ?thesis by (auto simp: proxy_inv_def)
next
  case accept_failed
  with assms(2) show ?thesis by simp
next
  case acquire
  with assms(2) show ?thesis by (auto simp: proxy_inv_def)
next
  case cancelled
  with assms(2) show ?thesis by (auto simp: proxy_inv_def)
next
  case dispatch
  from assms(2) have fin: "finite (workers s)"
    and bound: "\<forall>connID \<in> workers s. connID \<le> nextConnID s"
    by (auto simp: proxy_inv_def)
  from bound have new: "nextConnID s + 1 \<notin> workers s" by auto
  from dispatch assms(2) fin new show ?thesis
    by (auto simp: proxy_inv_def)
next
  case (worker_return connID)
  from assms(2) have fin: "finite (workers s)" by (simp add: proxy_inv_def)
  with worker_return have "card (workers s - {connID}) = card (workers s) - 1"
    and "0 < card (workers s)"
    by (auto simp: card_gt_0_iff)
  with worker_return assms(2) fin show ?thesis
    by (auto simp: proxy_inv_def)
next
  case (worker_panic connID)
  from assms(2) have fin: "finite (workers s)" by (simp add: proxy_inv_def)
  with worker_panic have "card (workers s - {connID}) = card (workers s) - 1"
    and "0 < card (workers s)"
    by (auto simp: card_gt_0_iff)
  with worker_panic assms(2) fin show ?thesis
    by (auto simp: proxy_inv_def)
qed

lemma step_maxConns: "step s s' \<Longrightarrow> maxConns s' = maxConns s"
  by (cases rule: step.cases) auto

lemma reachable_inv:
  "rtranclp step (proxy_New m) s \<Longrightarrow> proxy_inv s \<and> maxConns s = maxConns (proxy_New m)"
proof (induction rule: rtranclp_induct)
  case base
  show ?case by (simp add: proxy_inv_New)
next
  case (step y z)
  then show ?case by (simp add: proxy_inv_step step_maxConns)
qed

text \<open>
  Claim C4. In every state that a proxy made by \<^verbatim>\<open>New\<close> reaches while \<^verbatim>\<open>Run\<close> and its
  workers execute, the number of slots held is at most the capacity \<^verbatim>\<open>maxConns\<close> (the
  argument of \<^verbatim>\<open>New\<close>, or 200 when that is not positive); the slots held are those of the
  running workers, plus one while the loop holds a slot for a worker it is about to start.
  For every connection handed to a worker (the ids from 1 to the counter) exactly one slot
  was acquired, before the dispatch, and the worker has released none while it runs and
  exactly one once it has ended, by return or by panic; a running worker always finds a
  slot to release.
\<close>

theorem semaphore_cap_invariant:
  "rtranclp step (proxy_New m) s \<Longrightarrow>
     sem s \<le> maxConns s \<and>
     maxConns s = (if m \<le> 0 then 200 else nat m) \<and>
     sem s = card (workers s) + (if pc s = Holding then 1 else 0) \<and>
     (\<forall>connID. 1 \<le> connID \<and> connID \<le> nextConnID s \<longrightarrow>
        acquired s connID = 1 \<and> released s connID = (if connID \<in> workers s then 0 else 1)) \<and>
     (\<forall>connID \<in> workers s. 0 < sem s)"
proof -
  assume r: "rtranclp step (proxy_New m) s"
  from reachable_inv [OF r] have inv: "proxy_inv s"
    and cap: "maxConns s = maxConns (proxy_New m)" by simp_all
  from inv have fin: "finite (workers s)" by (simp add: proxy_inv_def)
  have p1: "sem s \<le> maxConns s" using inv by (simp add: proxy_inv_def)
  have p2: "maxConns s = (if m \<le> 0 then 200 else nat m)"
    using cap by (simp add: proxy_New_def)
  have p3: "sem s = card (workers s) + (if pc s = Holding then 1 else 0)"
    using inv by (simp add: proxy_inv_def)
  have p4: "\<forall>connID. 1 \<le> connID \<and> connID \<le> nextConnID s \<longrightarrow>
        acquired s connID = 1 \<and> released s connID = (if connID \<in> workers s then 0 else 1)"
    using inv by (simp add: proxy_inv_def)
  have p5: "\<forall>connID \<in> workers s. 0 < sem s"
  proof
    fix connID assume "connID \<in> workers s"
    with fin have "0 < card (workers s)" by (auto simp: card_gt_0_iff)
    with p3 show "0 < sem s" by simp
  qed
  show ?thesis by (rule conjI [OF p1 conjI [OF p2 conjI [OF p3 conjI [OF p4 p5]]]])
qed

lemma test_run:
  "rtranclp step (proxy_New 1)
     ((proxy_New 1)\<lparr>sem := 1, nextConnID := 1, pc := Waiting, workers := {1},
                    acquired := (\<lambda>connID. 0)(1 := 1)\<rparr>)"
proof -
  let ?s0 = "proxy_New 1"
  let ?s1 = "?s0\<lparr>pc := Waiting\<rparr>"
  let ?s2 = "?s0\<lparr>sem := 1, pc := Holding, acquired := (\<lambda>connID. 0)(1 := 1)\<rparr>"
  let ?s3 = "?s0\<lparr>sem := 1, nextConnID := 1, pc := Accepting, workers := {1},
                 acquired := (\<lambda>connID. 0)(1 := 1)\<rparr>"
  let ?s4 = "?s0\<lparr>sem := 1, nextConnID := 1, pc := Waiting, workers := {1},
                 acquired := (\<lambda>connID. 0)(1 := 1)\<rparr>"
  have a: "step ?s0 ?s1"
    by (rule step.accept_ok) (simp add: proxy_New_def)
  have b: "step ?s1 ?s2"
    using step.acquire [of ?s1] by (simp add: proxy_New_def)
  have c: "step ?s2 ?s3"
    using step.dispatch [of ?s2] by (simp add: proxy_New_def)
  have d: "step ?s3 ?s4"
    using step.accept_ok [of ?s3] by (simp add: proxy_New_def)
  from a b c d show ?thesis
    by (meson rtranclp.rtrancl_into_rtrancl rtranclp.rtrancl_refl)
qed

theorem semaphore_cap_invariant_witness:
  "sem ((proxy_New 1)\<lparr>sem := 1, nextConnID := 1, pc := Waiting, workers := {1},
                       acquired := (\<lambda>connID. 0)(1 := 1)\<rparr>) = 1 \<and>
   maxConns ((proxy_New 1)\<lparr>sem := 1, nextConnID := 1, pc := Waiting, workers := {1},
                       acquired := (\<lambda>connID. 0)(1 := 1)\<rparr>) = 1 \<and>
   maxConns (proxy_New 0) = 200"
proof -
  let ?s = "(proxy_New 1)\<lparr>sem := 1, nextConnID := 1, pc := Waiting, workers := {1},
                       acquired := (\<lambda>connID. 0)(1 := 1)\<rparr>"
  from semaphore_cap_invariant [OF test_run]
  have a: "sem ?s \<le> maxConns ?s" and b: "maxConns ?s = 1"
    and c: "sem ?s = card (workers ?s) + (if pc ?s = Holding then 1 else 0)"
    by simp_all
  from c have s1: "sem ?s = 1" by simp
  have "rtranclp step (proxy_New 0) (proxy_New 0)" by simp
  from semaphore_cap_invariant [OF this] have d: "maxConns (proxy_New 0) = 200" by simp
  show ?thesis by (rule conjI [OF s1 conjI [OF b d]])
qed

end
